theory Spec2Isabelle
  imports Complex_Main
begin

section \<open>The parallel processor of \<^verbatim>\<open>Backend/utils/parallel.py\<close>\<close>

text \<open>
  The development embeds the class \<^verbatim>\<open>ParallelProcessor\<close>: the two sizing helpers, the
  retry wrapper, the scheduling coroutine \<^verbatim>\<open>_async_process_all\<close> with its inner
  coroutine \<^verbatim>\<open>one\<close>, and the two public entry points.

  Python integers are \<open>int\<close>, Python lists are lists, \<^verbatim>\<open>Optional[Any]\<close> is \<open>'r option\<close>
  (\<open>None\<close> is Python's \<^verbatim>\<open>None\<close>), \<^verbatim>\<open>**kwargs\<close> is a map from names to values, and a raise
  is a value of a sum type.
\<close>

subsection \<open>Errors and Python values\<close>

text \<open>Exceptions that leave the processor itself: \<^verbatim>\<open>ValueError\<close> (\<^verbatim>\<open>range()\<close> with step
  zero, \<^verbatim>\<open>asyncio.Semaphore\<close> with a negative value, \<^verbatim>\<open>float()\<close> of a string that is no
  number), \<^verbatim>\<open>TypeError\<close> (\<^verbatim>\<open>float()\<close> of an object that is no number, a keyword argument
  given twice in a call) and the \<^verbatim>\<open>MarkupError\<close> of the Rich library (a log line that its
  markup parser rejects).\<close>

datatype error = ValueError | TypeError | MarkupError

text \<open>Exceptions inside one item's processing: an \<^verbatim>\<open>Exception\<close> instance raised by the
  process function (any message), or the \<^verbatim>\<open>TimeoutError\<close> of \<^verbatim>\<open>asyncio.wait_for\<close>.
  Both are instances of \<^verbatim>\<open>Exception\<close>, the class that \<^verbatim>\<open>retry_if_exception_type\<close> and
  the \<^verbatim>\<open>except\<close> clause of \<^verbatim>\<open>one\<close> select.\<close>

datatype exn = Exception string | TimeoutError

text \<open>The text of an exception, as \<^verbatim>\<open>f"{e}"\<close> prints it: the message, and nothing for
  the \<^verbatim>\<open>TimeoutError\<close> that \<^verbatim>\<open>asyncio.wait_for\<close> raises without arguments.\<close>

fun exn_text :: "exn \<Rightarrow> string" where
  "exn_text (Exception m) = m"
| "exn_text TimeoutError = []"

text \<open>Values of keyword arguments: \<^verbatim>\<open>None\<close>; a number (an \<^verbatim>\<open>int\<close>, a \<^verbatim>\<open>bool\<close>, a finite
  \<^verbatim>\<open>float\<close> or another object that \<^verbatim>\<open>float()\<close> converts, by its value); a string; an
  object that is false in a condition (an empty list, say); an object that is true in
  a condition and that \<^verbatim>\<open>float()\<close> rejects (a list that is not empty, say).\<close>

datatype pyval = PyNone | PyNum real | PyStr string | PyEmpty nat | PyObj nat

type_synonym kwargs = "string \<rightharpoonup> pyval"

subsection \<open>Worker and batching helpers\<close>

text \<open>\<^verbatim>\<open>determine_worker_count(workers)\<close>. The first argument is the value of
  \<^verbatim>\<open>os.cpu_count()\<close>, which may be \<^verbatim>\<open>None\<close>; \<^verbatim>\<open>os.cpu_count() or 4\<close> replaces \<^verbatim>\<open>None\<close>
  and \<^verbatim>\<open>0\<close> by \<^verbatim>\<open>4\<close>.\<close>

definition cpu_count_or_4 :: "nat option \<Rightarrow> int" where
  "cpu_count_or_4 cpu_count =
     (case cpu_count of None \<Rightarrow> 4 | Some c \<Rightarrow> if c = 0 then 4 else int c)"

definition determine_worker_count :: "nat option \<Rightarrow> int option \<Rightarrow> int" where
  "determine_worker_count cpu_count workers =
     (let default_workers = min (cpu_count_or_4 cpu_count * 2) 128
      in case workers of None \<Rightarrow> default_workers | Some w \<Rightarrow> max 1 w)"

text \<open>\<^verbatim>\<open>range(start, stop, step)\<close> as a list: ascending for a positive step, descending
  for a negative one, \<^verbatim>\<open>ValueError\<close> for step zero.\<close>

function range_up :: "int \<Rightarrow> int \<Rightarrow> int \<Rightarrow> int list" where
  "range_up i stop step =
     (if step \<le> 0 \<or> stop \<le> i then [] else i # range_up (i + step) stop step)"
  by pat_completeness auto
termination
  by (relation "measure (\<lambda>(i, stop, step). nat (stop - i))") auto

function range_down :: "int \<Rightarrow> int \<Rightarrow> int \<Rightarrow> int list" where
  "range_down i stop step =
     (if 0 \<le> step \<or> i \<le> stop then [] else i # range_down (i + step) stop step)"
  by pat_completeness auto
termination
  by (relation "measure (\<lambda>(i, stop, step). nat (i - stop))") auto

definition py_range :: "int \<Rightarrow> int \<Rightarrow> int \<Rightarrow> error + int list" where
  "py_range start stop step =
     (if step = 0 then Inl ValueError
      else if 0 < step then Inr (range_up start stop step)
      else Inr (range_down start stop step))"

text \<open>The slice \<^verbatim>\<open>xs[a:b]\<close>: a negative bound counts from the end, and both bounds
  are clipped to the list.\<close>

definition slice_bound :: "nat \<Rightarrow> int \<Rightarrow> nat" where
  "slice_bound n a = (if a < 0 then nat (max 0 (int n + a)) else min (nat a) n)"

definition py_slice :: "'a list \<Rightarrow> int \<Rightarrow> int \<Rightarrow> 'a list" where
  "py_slice xs a b =
     (let lo = slice_bound (length xs) a; hi = slice_bound (length xs) b
      in take (hi - lo) (drop lo xs))"

text \<open>The batch size \<^verbatim>\<open>create_batches\<close> works with, after its two adjustments.\<close>

definition effective_batch_size :: "int \<Rightarrow> int \<Rightarrow> int" where
  "effective_batch_size total_items batch_size =
     (if 1000 < total_items then max batch_size (total_items div 50)
      else if total_items < 50 then max 1 (max 1 (total_items div 4))
      else batch_size)"

definition create_batches :: "'a list \<Rightarrow> int \<Rightarrow> error + (int list \<times> 'a list) list" where
  "create_batches items batch_size =
     (let total_items = int (length items);
          bs = effective_batch_size total_items batch_size
      in case py_range 0 total_items bs of
           Inl e \<Rightarrow> Inl e
         | Inr starts \<Rightarrow>
             Inr (map (\<lambda>i. (range_up i (min (i + bs) total_items) 1, py_slice items i (i + bs)))
                      starts))"

subsection \<open>The retry wrapper\<close>

text \<open>One call of the process function returns a value (possibly \<^verbatim>\<open>None\<close>) or raises.\<close>

datatype 'r outcome = Returns "'r option" | Raises exn

text \<open>A process function is called as \<^verbatim>\<open>func(item, **kwargs)\<close>. It need not be pure:
  the third argument counts the calls made for the item (1 for the first attempt), so
  that a function may fail on one attempt and succeed on a later one.\<close>

type_synonym ('a, 'r) process_func = "'a \<Rightarrow> kwargs \<Rightarrow> nat \<Rightarrow> 'r outcome"

text \<open>The loop of the \<^verbatim>\<open>tenacity\<close> decorator with \<^verbatim>\<open>reraise=True\<close>,
  \<^verbatim>\<open>stop_after_attempt(max_retries + 1)\<close> and \<^verbatim>\<open>retry_if_exception_type(Exception)\<close>:
  attempt number \<open>n\<close> is made; a value is returned at once; after a raise the stop
  condition \<^verbatim>\<open>attempt_number >= max_retries + 1\<close> re-raises that exception, and otherwise
  (after the back-off sleep) attempt \<open>n + 1\<close> follows. The result comes with the number
  of calls made.\<close>

function retry_from :: "('a, 'r) process_func \<Rightarrow> int \<Rightarrow> 'a \<Rightarrow> kwargs \<Rightarrow> nat \<Rightarrow> 'r outcome \<times> nat" where
  "retry_from func max_retries item kw n =
     (case func item kw n of
        Returns v \<Rightarrow> (Returns v, n)
      | Raises e \<Rightarrow>
          if max_retries + 1 \<le> int n then (Raises e, n)
          else retry_from func max_retries item kw (Suc n))"
  by pat_completeness auto
termination
  by (relation "measure (\<lambda>(func, max_retries, item, kw, n). nat (max_retries + 1 - int n))") auto

definition make_retry_async :: "('a, 'r) process_func \<Rightarrow> int \<Rightarrow> 'a \<Rightarrow> kwargs \<Rightarrow> 'r outcome \<times> nat" where
  "make_retry_async func max_retries = (\<lambda>item kw. retry_from func max_retries item kw 1)"

text \<open>The call \<^verbatim>\<open>safe_call(item, **kwargs)\<close> made by \<^verbatim>\<open>one\<close> passes the keyword arguments
  on through two signatures before the process function is reached. The decorator's
  wrapper hands them to \<^verbatim>\<open>AsyncRetrying.__call__(self, fn, *args, **kwargs)\<close>: a keyword
  named \<^verbatim>\<open>fn\<close> is a second value for that parameter, and \<^verbatim>\<open>TypeError\<close> is raised before the
  retry loop starts. The loop then calls \<^verbatim>\<open>safe_call(item, **kwargs)\<close> itself: a keyword
  named \<^verbatim>\<open>item\<close> is a second value for its first parameter, and every attempt raises
  \<^verbatim>\<open>TypeError\<close> without reaching the process function.\<close>

definition fn_clash :: exn where
  "fn_clash =
     Exception (''AsyncRetrying.__call__() got multiple values for argument 'fn'' @ [CHR 0x27])"

definition item_clash :: exn where
  "item_clash =
     Exception
       (''ParallelProcessor._make_retry_async.<locals>.safe_call() got multiple values ''
        @ ''for argument 'item'' @ [CHR 0x27])"

definition bind_item :: "('a, 'r) process_func \<Rightarrow> ('a, 'r) process_func" where
  "bind_item func =
     (\<lambda>item kw n. if kw ''item'' \<noteq> None then Raises item_clash else func item kw n)"

text \<open>The decorated function as \<^verbatim>\<open>one\<close> calls it: the outcome and the number of
  attempts.\<close>

definition safe_call :: "('a, 'r) process_func \<Rightarrow> int \<Rightarrow> 'a \<Rightarrow> kwargs \<Rightarrow> 'r outcome \<times> nat" where
  "safe_call func max_retries item kw =
     (if kw ''fn'' \<noteq> None then (Raises fn_clash, 0)
      else make_retry_async (bind_item func) max_retries item kw)"

subsection \<open>Log lines\<close>

text \<open>\<^verbatim>\<open>str()\<close> of an integer, for the numbers that the f-strings of the log lines print.\<close>

definition digit_char :: "nat \<Rightarrow> char" where
  "digit_char d = ''0123456789'' ! d"

function show_nat :: "nat \<Rightarrow> string" where
  "show_nat n = (if n < 10 then [digit_char n] else show_nat (n div 10) @ [digit_char (n mod 10)])"
  by pat_completeness auto
termination
  by (relation "measure (\<lambda>n. n)") auto

definition show_int :: "int \<Rightarrow> string" where
  "show_int i = (if i < 0 then ''-'' @ show_nat (nat (- i)) else show_nat (nat i))"

text \<open>\<^verbatim>\<open>f"Task {idx} failed after {max_retries} retries: {e}"\<close>\<close>

definition failure_line :: "nat \<Rightarrow> int \<Rightarrow> exn \<Rightarrow> string" where
  "failure_line idx mr e =
     ''Task '' @ show_nat idx @ '' failed after '' @ show_int mr @ '' retries: '' @ exn_text e"

text \<open>What the log holds: the messages passed to \<^verbatim>\<open>self.info\<close> and to \<^verbatim>\<open>self.error\<close> that
  were written. (\<^verbatim>\<open>ModernLogger\<close> puts the icon of the level before the message; the
  icons hold no bracket.)\<close>

datatype log_entry = Info string | Error string

subsection \<open>The scheduling coroutine\<close>

text \<open>The arguments of \<^verbatim>\<open>_async_process_all\<close> that its behaviour depends on
  (\<^verbatim>\<open>task_description\<close> and \<^verbatim>\<open>hide_progress\<close> only choose how the progress bar is drawn),
  and two facts about the Rich library that \<^verbatim>\<open>ModernLogger\<close> writes through, taken as
  parameters: \<open>markup_ok line\<close> tells whether its markup parser accepts a line that
  holds an opening bracket, and \<open>markup_error line\<close> is the text of the \<^verbatim>\<open>MarkupError\<close> it
  raises for a line it rejects.\<close>

record ('a, 'r) config =
  items :: "'a list"
  process_func :: "('a, 'r) process_func"
  workers :: int
  max_retries :: int
  timeout :: int
  rate_limit_per_sec :: real
  kwargs :: kwargs
  markup_ok :: "string \<Rightarrow> bool"
  markup_error :: "string \<Rightarrow> string"

text \<open>Scope of the model. The event loop runs one coroutine at a time and switches at
  suspension points only, so an execution is a sequence of events, and every choice the
  loop and the clock have (which task goes next, when a timer fires, when the waiting
  \<^verbatim>\<open>gather\<close> is resumed) is a choice of the next event. The libraries are taken by their
  behaviour: an \<^verbatim>\<open>asyncio.Semaphore\<close> hands out as many permits as its value;
  \<^verbatim>\<open>asyncio.wait_for\<close> ends the wrapped call with \<^verbatim>\<open>TimeoutError\<close> when its timer fires;
  \<^verbatim>\<open>asyncio.gather\<close> returns when every task has ended and raises the exception of the
  first task that ended with one; \<^verbatim>\<open>AsyncLimiter(rate, 1)\<close> raises \<^verbatim>\<open>ValueError\<close> on every
  request when \<open>rate < 1\<close> (one permit is more than its capacity) and grants every
  request in the end otherwise (how long that takes is not modelled); the handler
  \<^verbatim>\<open>RichHandler(markup=True)\<close> of \<^verbatim>\<open>ModernLogger\<close>, at the level the constructor sets,
  writes a line with no opening bracket as it is and raises \<^verbatim>\<open>MarkupError\<close> to the caller
  of \<^verbatim>\<open>self.error\<close> for a line that its markup parser rejects. A call of the process
  function returns or raises an \<^verbatim>\<open>Exception\<close>. Not modelled: a call that never ends, an
  exception outside \<^verbatim>\<open>Exception\<close>, a cancellation from outside, a rate that is no finite
  number, the drawing of the progress bar (the task description is taken to be one that
  Rich renders), and what the tasks still do after \<^verbatim>\<open>_async_process_all\<close> has returned
  or raised.\<close>

text \<open>Where the coroutine \<^verbatim>\<open>one(idx, item)\<close> of an item stands:
  \<^item> \<open>Created\<close>: the task exists and has not reached the rate limiter;
  \<^item> \<open>AtGate\<close>: it has its permit and waits at \<^verbatim>\<open>async with sem\<close>;
  \<^item> \<open>Backoff k\<close>: it holds the semaphore inside \<^verbatim>\<open>safe_call\<close>, \<open>k\<close> attempts have
    raised, and attempt \<open>k + 1\<close> has not started;
  \<^item> \<open>Calling k\<close>: it holds the semaphore and attempt number \<open>k\<close> is running;
  \<^item> \<open>Succeeded v\<close>, \<open>Failed e\<close>: the coroutine has ended, through the \<^verbatim>\<open>try\<close> branch
    with the value \<open>v\<close> or through the whole \<^verbatim>\<open>except\<close> branch with the exception \<open>e\<close>;
  \<^item> \<open>Unlogged e\<close>: the \<^verbatim>\<open>except\<close> branch was entered with the exception \<open>e\<close> and
    \<^verbatim>\<open>self.error\<close> raised \<^verbatim>\<open>MarkupError\<close>: the assignment \<^verbatim>\<open>results[idx] = None\<close> after it
    was not reached, the \<^verbatim>\<open>finally\<close> block ran, and the task ended with the
    \<^verbatim>\<open>MarkupError\<close>;
  \<^item> \<open>Rejected\<close>: \<^verbatim>\<open>async with limiter\<close> raised \<^verbatim>\<open>ValueError\<close>, which is outside the
    \<^verbatim>\<open>try\<close> statement, and the task ended with it.\<close>

datatype 'r phase = Created | AtGate | Backoff nat | Calling nat
  | Succeeded "'r option" | Failed exn | Unlogged exn | Rejected

fun running :: "'r phase \<Rightarrow> bool" where
  "running (Backoff k) = True"
| "running (Calling k) = True"
| "running p = False"

text \<open>The terminal states of an item: the task has gone through the \<^verbatim>\<open>try\<close> statement
  of \<^verbatim>\<open>one\<close> and its \<^verbatim>\<open>finally\<close> block.\<close>

fun terminal :: "'r phase \<Rightarrow> bool" where
  "terminal (Succeeded v) = True"
| "terminal (Failed e) = True"
| "terminal (Unlogged e) = True"
| "terminal p = False"

text \<open>The task has assigned its slot.\<close>

fun written :: "'r phase \<Rightarrow> bool" where
  "written (Succeeded v) = True"
| "written (Failed e) = True"
| "written p = False"

text \<open>The task has ended with an exception.\<close>

fun died :: "'r phase \<Rightarrow> bool" where
  "died (Unlogged e) = True"
| "died Rejected = True"
| "died p = False"

text \<open>The exception a task ended with: the \<^verbatim>\<open>ValueError\<close> of the limiter, or the
  \<^verbatim>\<open>MarkupError\<close> for a line.\<close>

datatype crash = LimiterError | MarkupFailure string

text \<open>The mutable state of one run: the phase of every task, the list \<^verbatim>\<open>results\<close>, the
  indices of the slots assigned so far (one entry for each assignment
  \<^verbatim>\<open>results[idx] = ...\<close>, in order), the value of the semaphore, the counter \<^verbatim>\<open>completed\<close>,
  the values passed to \<^verbatim>\<open>progress.update\<close> in order, the log, the calls of the process
  function started so far (task index, item, keyword arguments), the exception of the
  first task that ended with one, whether \<^verbatim>\<open>_async_process_all\<close> has reached its
  \<^verbatim>\<open>return\<close>, and the exception that has left it.\<close>

record ('a, 'r) state =
  phase :: "'r phase list"
  results :: "'r option list"
  writes :: "nat list"
  sem :: nat
  completed :: nat
  updates :: "nat list"
  logged :: "log_entry list"
  calls :: "(nat \<times> 'a \<times> kwargs) list"
  crash :: "crash option"
  returned :: bool
  escaped :: "error option"

text \<open>\<^verbatim>\<open>limiter = AsyncLimiter(rate_limit_per_sec, 1) if rate_limit_per_sec > 0 else None\<close>\<close>

definition has_limiter :: "('a, 'r) config \<Rightarrow> bool" where
  "has_limiter cfg = (0 < rate_limit_per_sec cfg)"

text \<open>\<^verbatim>\<open>if timeout and timeout > 0\<close>\<close>

definition timeout_enabled :: "('a, 'r) config \<Rightarrow> bool" where
  "timeout_enabled cfg = (timeout cfg \<noteq> 0 \<and> 0 < timeout cfg)"

text \<open>Whether \<^verbatim>\<open>self.info\<close> or \<^verbatim>\<open>self.error\<close> writes a line, rather than raise
  \<^verbatim>\<open>MarkupError\<close>.\<close>

definition log_ok :: "('a, 'r) config \<Rightarrow> string \<Rightarrow> bool" where
  "log_ok cfg line = (CHR ''['' \<notin> set line \<or> markup_ok cfg line)"

text \<open>The text of the exception a task ended with, and the line of the handler around
  \<^verbatim>\<open>gather\<close>: \<^verbatim>\<open>f"Unexpected error during gather: {e}"\<close>.\<close>

fun crash_text :: "('a, 'r) config \<Rightarrow> crash \<Rightarrow> string" where
  "crash_text cfg LimiterError = ''Can't acquire more than the maximum capacity''"
| "crash_text cfg (MarkupFailure line) = markup_error cfg line"

definition gather_line :: "('a, 'r) config \<Rightarrow> crash \<Rightarrow> string" where
  "gather_line cfg c = ''Unexpected error during gather: '' @ crash_text cfg c"

text \<open>The \<^verbatim>\<open>try\<close> branch after \<^verbatim>\<open>safe_call\<close> has returned.\<close>

definition store_result :: "nat \<Rightarrow> 'r option \<Rightarrow> ('a, 'r) state \<Rightarrow> ('a, 'r) state" where
  "store_result i v s =
     s\<lparr>results := (results s)[i := v],
       writes := writes s @ [i],
       phase := (phase s)[i := Succeeded v]\<rparr>"

text \<open>The \<^verbatim>\<open>except\<close> branch when \<^verbatim>\<open>self.error\<close> has written its line.\<close>

definition store_failure :: "('a, 'r) config \<Rightarrow> nat \<Rightarrow> exn \<Rightarrow> ('a, 'r) state \<Rightarrow> ('a, 'r) state" where
  "store_failure cfg i e s =
     s\<lparr>logged := logged s @ [Error (failure_line i (max_retries cfg) e)],
       results := (results s)[i := None],
       writes := writes s @ [i],
       phase := (phase s)[i := Failed e]\<rparr>"

text \<open>A task ends with an exception: \<^verbatim>\<open>gather\<close> keeps the first one.\<close>

definition note_crash :: "crash \<Rightarrow> ('a, 'r) state \<Rightarrow> ('a, 'r) state" where
  "note_crash c s = s\<lparr>crash := (case crash s of None \<Rightarrow> Some c | Some c' \<Rightarrow> Some c')\<rparr>"

text \<open>The \<^verbatim>\<open>except\<close> branch: \<^verbatim>\<open>self.error\<close> writes the line and the slot is assigned, or
  \<^verbatim>\<open>self.error\<close> raises and the branch is left at once.\<close>

definition except_branch :: "('a, 'r) config \<Rightarrow> nat \<Rightarrow> exn \<Rightarrow> ('a, 'r) state \<Rightarrow> ('a, 'r) state" where
  "except_branch cfg i e s =
     (if log_ok cfg (failure_line i (max_retries cfg) e)
      then store_failure cfg i e s
      else note_crash (MarkupFailure (failure_line i (max_retries cfg) e))
             (s\<lparr>phase := (phase s)[i := Unlogged e]\<rparr>))"

text \<open>The \<^verbatim>\<open>finally\<close> block, under the lock, followed by the release of the semaphore
  when the \<^verbatim>\<open>async with sem\<close> block is left.\<close>

definition complete :: "('a, 'r) config \<Rightarrow> ('a, 'r) state \<Rightarrow> ('a, 'r) state" where
  "complete cfg s =
     (let c = completed s + 1
      in s\<lparr>completed := c,
           updates := (if c mod 10 = 0 \<or> c = length (items cfg) then updates s @ [c]
                       else updates s),
           sem := sem s + 1\<rparr>)"

text \<open>\<^verbatim>\<open>_async_process_all\<close> is still waiting in \<^verbatim>\<open>gather\<close>.\<close>

definition active :: "('a, 'r) state \<Rightarrow> bool" where
  "active s = (\<not> returned s \<and> escaped s = None)"

text \<open>What the event loop can do next. Between two suspension points a coroutine runs
  alone, so each event is one such stretch of one task:
  \<^item> \<open>Permit i\<close>: task \<open>i\<close> asks the rate limiter for its permit, and gets it or ends with
    the limiter's \<^verbatim>\<open>ValueError\<close>;
  \<^item> \<open>Acquire i\<close>: task \<open>i\<close> takes the semaphore;
  \<^item> \<open>Call i\<close>: task \<open>i\<close> enters \<^verbatim>\<open>safe_call\<close> or its next attempt: the attempt starts,
    which is a call of the process function unless a keyword is named \<^verbatim>\<open>item\<close>, or the
    wrapper raises because a keyword is named \<^verbatim>\<open>fn\<close> and the rest of \<^verbatim>\<open>one\<close> runs to its
    end;
  \<^item> \<open>Return i\<close>: the running attempt for item \<open>i\<close> returns or raises; the retry loop
    decides, and on a final outcome the rest of \<^verbatim>\<open>one\<close> runs to its end;
  \<^item> \<open>Expire i\<close>: the timer of \<^verbatim>\<open>asyncio.wait_for\<close> for item \<open>i\<close> fires, which can happen
    at any moment while \<^verbatim>\<open>safe_call\<close> is running, if a timeout is set;
  \<^item> \<open>Gather\<close>: every task has ended without an exception, \<^verbatim>\<open>asyncio.gather\<close> returns
    and the closing \<^verbatim>\<open>progress.update(task_id, completed=total_items)\<close> runs;
  \<^item> \<open>GatherRaise\<close>: a task has ended with an exception, \<^verbatim>\<open>asyncio.gather\<close> raises the
    first such exception, and the handler \<^verbatim>\<open>except Exception\<close> logs it and lets the
    function return \<^verbatim>\<open>results\<close> as it is, unless \<^verbatim>\<open>self.error\<close> raises in its turn.
  An event that the state does not allow yields \<open>None\<close>.\<close>

datatype event = Permit nat | Acquire nat | Call nat | Return nat | Expire nat | Gather
  | GatherRaise

fun step :: "('a, 'r) config \<Rightarrow> event \<Rightarrow> ('a, 'r) state \<Rightarrow> ('a, 'r) state option" where
  "step cfg (Permit i) s =
     (if active s \<and> i < length (phase s) \<and> phase s ! i = Created \<and> has_limiter cfg
      then (if 1 \<le> rate_limit_per_sec cfg
            then Some (s\<lparr>phase := (phase s)[i := AtGate]\<rparr>)
            else Some (note_crash LimiterError (s\<lparr>phase := (phase s)[i := Rejected]\<rparr>)))
      else None)"
| "step cfg (Acquire i) s =
     (if active s \<and> i < length (phase s)
         \<and> (phase s ! i = AtGate \<or> (phase s ! i = Created \<and> \<not> has_limiter cfg))
         \<and> 0 < sem s
      then Some (s\<lparr>phase := (phase s)[i := Backoff 0], sem := sem s - 1\<rparr>)
      else None)"
| "step cfg (Call i) s =
     (if active s \<and> i < length (phase s) \<and> i < length (items cfg)
      then (case phase s ! i of
              Backoff k \<Rightarrow>
                if kwargs cfg ''fn'' \<noteq> None
                then Some (complete cfg (except_branch cfg i fn_clash s))
                else Some (s\<lparr>phase := (phase s)[i := Calling (Suc k)],
                             calls := (if kwargs cfg ''item'' = None
                                       then calls s @ [(i, items cfg ! i, kwargs cfg)]
                                       else calls s)\<rparr>)
            | _ \<Rightarrow> None)
      else None)"
| "step cfg (Return i) s =
     (if active s \<and> i < length (phase s) \<and> i < length (items cfg)
      then (case phase s ! i of
              Calling k \<Rightarrow>
                (case bind_item (process_func cfg) (items cfg ! i) (kwargs cfg) k of
                   Returns v \<Rightarrow> Some (complete cfg (store_result i v s))
                 | Raises e \<Rightarrow>
                     if max_retries cfg + 1 \<le> int k
                     then Some (complete cfg (except_branch cfg i e s))
                     else Some (s\<lparr>phase := (phase s)[i := Backoff k]\<rparr>))
            | _ \<Rightarrow> None)
      else None)"
| "step cfg (Expire i) s =
     (if active s \<and> i < length (phase s) \<and> timeout_enabled cfg \<and> running (phase s ! i)
      then Some (complete cfg (except_branch cfg i TimeoutError s))
      else None)"
| "step cfg Gather s =
     (if active s \<and> list_all written (phase s)
      then Some (s\<lparr>updates := updates s @ [length (items cfg)], returned := True\<rparr>)
      else None)"
| "step cfg GatherRaise s =
     (if active s
      then (case crash s of
              None \<Rightarrow> None
            | Some c \<Rightarrow>
                if log_ok cfg (gather_line cfg c)
                then Some (s\<lparr>logged := logged s @ [Error (gather_line cfg c)],
                             returned := True\<rparr>)
                else Some (s\<lparr>escaped := Some MarkupError\<rparr>))
      else None)"

text \<open>A schedule is the sequence of events of one execution.\<close>

fun exec :: "('a, 'r) config \<Rightarrow> event list \<Rightarrow> ('a, 'r) state \<Rightarrow> ('a, 'r) state option" where
  "exec cfg [] s = Some s"
| "exec cfg (ev # evs) s =
     (case step cfg ev s of None \<Rightarrow> None | Some s' \<Rightarrow> exec cfg evs s')"

text \<open>The state after \<^verbatim>\<open>results = [None] * total_items\<close> and the creation of the tasks.\<close>

definition init_state :: "('a, 'r) config \<Rightarrow> ('a, 'r) state" where
  "init_state cfg =
     \<lparr>phase = replicate (length (items cfg)) Created,
      results = replicate (length (items cfg)) None,
      writes = [],
      sem = nat (workers cfg),
      completed = 0,
      updates = [],
      logged = [],
      calls = [],
      crash = None,
      returned = False,
      escaped = None\<rparr>"

text \<open>The state the fast path for an empty input leaves: nothing but the log line.\<close>

definition no_items_state :: "('a, 'r) state" where
  "no_items_state =
     \<lparr>phase = [], results = [], writes = [], sem = 0, completed = 0, updates = [],
      logged = [Info ''No items to process.''], calls = [], crash = None, returned = True,
      escaped = None\<rparr>"

text \<open>How a call ends: it raises, it returns the list \<^verbatim>\<open>results\<close> (given here with the
  whole final state, so that the log and the progress updates can be read too), it
  returns \<^verbatim>\<open>None\<close> instead of a list, or the schedule is not a complete execution.\<close>

datatype ('a, 'r) run = Raised error | Returned "('a, 'r) state" | ReturnedNone | NoReturn

definition async_process_all :: "('a, 'r) config \<Rightarrow> event list \<Rightarrow> ('a, 'r) run" where
  "async_process_all cfg sched =
     (if length (items cfg) = 0
      then (if log_ok cfg ''No items to process.'' then Returned no_items_state
            else Raised MarkupError)
      else if workers cfg < 0 then Raised ValueError
      else (case exec cfg sched (init_state cfg) of
              None \<Rightarrow> NoReturn
            | Some s \<Rightarrow>
                (case escaped s of
                   Some e \<Rightarrow> Raised e
                 | None \<Rightarrow> if returned s then Returned s else NoReturn)))"

subsection \<open>The public entry points\<close>

text \<open>What a call depends on besides its arguments: the value of \<^verbatim>\<open>os.cpu_count()\<close>,
  whether an event loop is already running (\<^verbatim>\<open>_run_asyncio\<close> then runs the coroutine in a
  thread), the schedule, and three facts about Python and Rich taken as parameters:
  \<open>str_to_float t\<close> is the number \<^verbatim>\<open>float(t)\<close> gives for a string \<open>t\<close> that is not empty,
  or \<open>None\<close> when it raises \<^verbatim>\<open>ValueError\<close>, and the two about the markup parser that the
  configuration carries.\<close>

record env =
  cpu_count :: "nat option"
  running_loop :: bool
  schedule :: "event list"
  str_to_float :: "string \<Rightarrow> real option"
  rich_markup_ok :: "string \<Rightarrow> bool"
  rich_markup_error :: "string \<Rightarrow> string"

text \<open>\<^verbatim>\<open>_run_asyncio\<close>: without a running loop the result of \<^verbatim>\<open>asyncio.run\<close> is returned
  and its exception propagates; with one, \<^verbatim>\<open>result_box.get('value')\<close> is returned, which
  is \<^verbatim>\<open>None\<close> when the coroutine raised inside the thread.\<close>

definition run_asyncio :: "bool \<Rightarrow> ('a, 'r) run \<Rightarrow> ('a, 'r) run" where
  "run_asyncio in_loop r =
     (if in_loop then (case r of Raised e \<Rightarrow> ReturnedNone | _ \<Rightarrow> r) else r)"

text \<open>\<^verbatim>\<open>float(kwargs.pop("rate_limit_per_sec", 0) or 0)\<close>: a missing key and a value
  that is false in a condition (\<^verbatim>\<open>None\<close>, zero, the empty string, an empty container)
  give zero; \<^verbatim>\<open>float\<close> converts a string that denotes a number,
  raises \<^verbatim>\<open>ValueError\<close> for another string and \<^verbatim>\<open>TypeError\<close> for an object that is no
  number.\<close>

definition pop_rate_limit :: "env \<Rightarrow> kwargs \<Rightarrow> error + real" where
  "pop_rate_limit ev kw =
     (case kw ''rate_limit_per_sec'' of
        None \<Rightarrow> Inr 0
      | Some PyNone \<Rightarrow> Inr 0
      | Some (PyNum x) \<Rightarrow> Inr x
      | Some (PyStr t) \<Rightarrow>
          if t = [] then Inr 0
          else (case str_to_float ev t of None \<Rightarrow> Inl ValueError | Some x \<Rightarrow> Inr x)
      | Some (PyEmpty x) \<Rightarrow> Inr 0
      | Some (PyObj x) \<Rightarrow> Inl TypeError)"

text \<open>A call that passes \<^verbatim>\<open>**kwargs\<close> beside arguments given by name raises \<^verbatim>\<open>TypeError\<close>
  when the dictionary holds one of these names. The names given at the call of
  \<^verbatim>\<open>process_batches\<close> in \<^verbatim>\<open>parallel_process\<close>, and at the call of \<^verbatim>\<open>_async_process_all\<close> in
  \<^verbatim>\<open>process_batches\<close>:\<close>

definition process_batches_keywords :: "string list" where
  "process_batches_keywords =
     [''batches'', ''workers'', ''process_func'', ''total_items'', ''task_description'',
      ''max_retries'', ''timeout'', ''hide_progress'']"

definition async_process_all_keywords :: "string list" where
  "async_process_all_keywords =
     [''items'', ''process_func'', ''workers'', ''task_description'', ''max_retries'',
      ''timeout'', ''hide_progress'', ''rate_limit_per_sec'']"

definition collides :: "string list \<Rightarrow> kwargs \<Rightarrow> bool" where
  "collides names kw = list_ex (\<lambda>k. kw k \<noteq> None) names"

text \<open>The configuration \<^verbatim>\<open>process_batches\<close> hands to \<^verbatim>\<open>_async_process_all\<close>.\<close>

definition batch_config ::
  "env \<Rightarrow> 'a list \<Rightarrow> int \<Rightarrow> ('a, 'r) process_func \<Rightarrow> int \<Rightarrow> int \<Rightarrow> real \<Rightarrow> kwargs
     \<Rightarrow> ('a, 'r) config" where
  "batch_config ev flat_items workers' process_func' max_retries' timeout' rate kw =
     \<lparr>items = flat_items,
      process_func = process_func',
      workers = workers',
      max_retries = max_retries',
      timeout = timeout',
      rate_limit_per_sec = rate,
      kwargs = kw(''rate_limit_per_sec'' := None),
      markup_ok = rich_markup_ok ev,
      markup_error = rich_markup_error ev\<rparr>"

text \<open>The two entry points. The parameters of an entry point are arguments here, and
  its map of keyword arguments holds the names that are none of its parameters
  (\<^verbatim>\<open>task_description\<close> and \<^verbatim>\<open>hide_progress\<close> are left out, as in the configuration).\<close>

definition process_batches ::
  "env \<Rightarrow> (int list \<times> 'a list) list \<Rightarrow> int \<Rightarrow> ('a, 'r) process_func \<Rightarrow> int \<Rightarrow> int \<Rightarrow> int
     \<Rightarrow> kwargs \<Rightarrow> ('a, 'r) run" where
  "process_batches ev batches workers' process_func' total_items max_retries' timeout' kw =
     (let flat_items = concat (map snd batches)
      in case pop_rate_limit ev kw of
           Inl e \<Rightarrow> Raised e
         | Inr rate \<Rightarrow>
             if collides async_process_all_keywords (kw(''rate_limit_per_sec'' := None))
             then Raised TypeError
             else run_asyncio (running_loop ev)
                    (async_process_all
                       (batch_config ev flat_items workers' process_func' max_retries' timeout'
                          rate kw)
                       (schedule ev)))"

definition parallel_process ::
  "env \<Rightarrow> 'a list \<Rightarrow> ('a, 'r) process_func \<Rightarrow> int option \<Rightarrow> int \<Rightarrow> int \<Rightarrow> int
     \<Rightarrow> kwargs \<Rightarrow> ('a, 'r) run" where
  "parallel_process ev items' process_func' workers' batch_size max_retries' timeout' kw =
     (let worker_count = determine_worker_count (cpu_count ev) workers'
      in case create_batches items' batch_size of
           Inl e \<Rightarrow> Raised e
         | Inr batches \<Rightarrow>
             if collides process_batches_keywords kw then Raised TypeError
             else process_batches ev batches worker_count process_func' (int (length items'))
                    max_retries' timeout' kw)"

section \<open>Notions used in the statements\<close>

text \<open>The number of tasks inside \<^verbatim>\<open>safe_call\<close> (state RUNNING), the number of tasks that
  have ended, and the number of calls of the process function started for one item.\<close>

definition running_count :: "('a, 'r) state \<Rightarrow> nat" where
  "running_count s = length (filter running (phase s))"

definition terminal_count :: "('a, 'r) state \<Rightarrow> nat" where
  "terminal_count s = length (filter terminal (phase s))"

definition calls_of :: "nat \<Rightarrow> ('a, 'r) state \<Rightarrow> nat" where
  "calls_of i s = length (filter (\<lambda>c. fst c = i) (calls s))"

text \<open>The largest number of attempts the retry loop makes: the first attempt is made
  before the stop condition is looked at.\<close>

definition attempt_budget :: "int \<Rightarrow> nat" where
  "attempt_budget mr = nat (max 1 (mr + 1))"

text \<open>What \<^verbatim>\<open>safe_call\<close> gives for item \<open>i\<close> when no timer cuts it short, and the slot
  value that belongs to an outcome.\<close>

definition item_outcome :: "('a, 'r) config \<Rightarrow> nat \<Rightarrow> 'r outcome" where
  "item_outcome cfg i =
     fst (safe_call (process_func cfg) (max_retries cfg) (items cfg ! i) (kwargs cfg))"


fun slot_of :: "'r phase \<Rightarrow> 'r option" where
  "slot_of (Succeeded v) = v"
| "slot_of p = None"

text \<open>The exceptions the \<^verbatim>\<open>except\<close> branch of task \<open>i\<close> can see: the one \<^verbatim>\<open>safe_call\<close>
  raises in the end, and \<^verbatim>\<open>TimeoutError\<close> if a timeout is set.\<close>

definition ends_with :: "('a, 'r) config \<Rightarrow> nat \<Rightarrow> exn \<Rightarrow> bool" where
  "ends_with cfg i e =
     (item_outcome cfg i = Raises e \<or> (e = TimeoutError \<and> timeout_enabled cfg))"

text \<open>The counter values at which \<^verbatim>\<open>one\<close> calls \<^verbatim>\<open>progress.update\<close>, among the first \<open>c\<close>
  completions of \<open>n\<close> items.\<close>

definition progress_marks :: "nat \<Rightarrow> nat \<Rightarrow> nat list" where
  "progress_marks n c = filter (\<lambda>k. k mod 10 = 0 \<or> k = n) [1..<Suc c]"

text \<open>The batch sizes for which \<^verbatim>\<open>create_batches\<close> steps forward through the items.\<close>

definition batching_ok :: "nat \<Rightarrow> int \<Rightarrow> bool" where
  "batching_ok n batch_size = (n < 50 \<or> 1000 < n \<or> 1 \<le> batch_size)"

text \<open>A rate the limiter can serve: none is made, or its capacity is at least the one
  permit a task asks for.\<close>

definition limiter_ok :: "('a, 'r) config \<Rightarrow> bool" where
  "limiter_ok cfg = (\<not> has_limiter cfg \<or> 1 \<le> rate_limit_per_sec cfg)"

text \<open>Every line that a failure by exhausted retries would log is one the logger
  writes. (It is, for one, when the text of the exception holds no opening bracket.)\<close>

definition loggable :: "('a, 'r) config \<Rightarrow> bool" where
  "loggable cfg =
     list_all
       (\<lambda>i. case item_outcome cfg i of
               Returns v \<Rightarrow> True
             | Raises e \<Rightarrow> log_ok cfg (failure_line i (max_retries cfg) e))
       [0..<length (items cfg)]"

text \<open>The keyword arguments of a call of \<^verbatim>\<open>parallel_process\<close> that reach
  \<^verbatim>\<open>_async_process_all\<close>: none of them has the name of an argument given at the two
  calls on the way.\<close>

definition keywords_ok :: "kwargs \<Rightarrow> bool" where
  "keywords_ok kw =
     (\<not> collides process_batches_keywords kw
      \<and> \<not> collides async_process_all_keywords (kw(''rate_limit_per_sec'' := None)))"

text \<open>The rate \<^verbatim>\<open>process_batches\<close> reads from the keyword arguments, when \<^verbatim>\<open>float()\<close>
  accepts the value.\<close>

definition rate_of :: "env \<Rightarrow> kwargs \<Rightarrow> real option" where
  "rate_of ev kw = (case pop_rate_limit ev kw of Inl e \<Rightarrow> None | Inr rate \<Rightarrow> Some rate)"

text \<open>The configuration a call of \<^verbatim>\<open>parallel_process\<close> runs \<^verbatim>\<open>_async_process_all\<close> with.\<close>

definition run_config ::
  "env \<Rightarrow> 'a list \<Rightarrow> ('a, 'r) process_func \<Rightarrow> int option \<Rightarrow> int \<Rightarrow> int \<Rightarrow> kwargs
     \<Rightarrow> ('a, 'r) config" where
  "run_config ev xs f w mr tmo kw =
     batch_config ev xs (determine_worker_count (cpu_count ev) w) f mr tmo
       (case rate_of ev kw of None \<Rightarrow> 0 | Some rate \<Rightarrow> rate) kw"

text \<open>The arguments for which \<^verbatim>\<open>parallel_process\<close> processes every item to its end: the
  batches cover the items, no keyword argument is given twice on the way, the rate is a
  value that \<^verbatim>\<open>float()\<close> accepts and the limiter can serve, and every failure line is one
  the logger writes.\<close>

definition well_formed ::
  "env \<Rightarrow> 'a list \<Rightarrow> ('a, 'r) process_func \<Rightarrow> int option \<Rightarrow> int \<Rightarrow> int \<Rightarrow> int \<Rightarrow> kwargs
     \<Rightarrow> bool" where
  "well_formed ev xs f w batch_size mr tmo kw =
     (batching_ok (length xs) batch_size
      \<and> keywords_ok kw
      \<and> rate_of ev kw \<noteq> None
      \<and> limiter_ok (run_config ev xs f w mr tmo kw)
      \<and> loggable (run_config ev xs f w mr tmo kw))"

section \<open>Invariants of the scheduling states\<close>

text \<open>The lists \<^verbatim>\<open>tasks\<close> and \<^verbatim>\<open>results\<close> keep the length of \<^verbatim>\<open>items\<close>.\<close>

definition inv_len :: "('a, 'r) config \<Rightarrow> ('a, 'r) state \<Rightarrow> bool" where
  "inv_len cfg s =
     (length (phase s) = length (items cfg) \<and> length (results s) = length (items cfg))"

text \<open>The permits of the semaphore that are out are held by the running tasks.\<close>

definition inv_sem :: "('a, 'r) config \<Rightarrow> ('a, 'r) state \<Rightarrow> bool" where
  "inv_sem cfg s = (sem s + running_count s = nat (workers cfg))"

text \<open>The counter counts the tasks that have gone through the \<^verbatim>\<open>try\<close> statement.\<close>

definition inv_count :: "('a, 'r) state \<Rightarrow> bool" where
  "inv_count s = (completed s = terminal_count s)"

text \<open>A slot holds the value of its task's success, and \<^verbatim>\<open>None\<close> otherwise.\<close>

definition inv_slot :: "('a, 'r) config \<Rightarrow> ('a, 'r) state \<Rightarrow> bool" where
  "inv_slot cfg s = (\<forall>i < length (items cfg). results s ! i = slot_of (phase s ! i))"

text \<open>The phase of task \<open>i\<close> agrees with the retry loop run on item \<open>i\<close>: a task that
  has made \<open>k\<close> failed attempts continues as the loop does from attempt \<open>k + 1\<close>, a
  success carries the value the loop returns, and a failure carries the exception the
  loop re-raises, or \<^verbatim>\<open>TimeoutError\<close> if a timeout is set; the failure is logged exactly
  when the logger writes its line; and a task is rejected only by a limiter that cannot
  serve it.\<close>

fun phase_ok :: "('a, 'r) config \<Rightarrow> nat \<Rightarrow> 'r phase \<Rightarrow> bool" where
  "phase_ok cfg i Created = True"
| "phase_ok cfg i AtGate = limiter_ok cfg"
| "phase_ok cfg i (Backoff k) =
     (limiter_ok cfg \<and> k < attempt_budget (max_retries cfg)
      \<and> retry_from (bind_item (process_func cfg)) (max_retries cfg) (items cfg ! i)
            (kwargs cfg) (Suc k)
          = make_retry_async (bind_item (process_func cfg)) (max_retries cfg) (items cfg ! i)
              (kwargs cfg))"
| "phase_ok cfg i (Calling k) =
     (limiter_ok cfg \<and> kwargs cfg ''fn'' = None \<and> 1 \<le> k \<and> k \<le> attempt_budget (max_retries cfg)
      \<and> retry_from (bind_item (process_func cfg)) (max_retries cfg) (items cfg ! i)
            (kwargs cfg) k
          = make_retry_async (bind_item (process_func cfg)) (max_retries cfg) (items cfg ! i)
              (kwargs cfg))"
| "phase_ok cfg i (Succeeded v) = (limiter_ok cfg \<and> item_outcome cfg i = Returns v)"
| "phase_ok cfg i (Failed e) =
     (limiter_ok cfg \<and> ends_with cfg i e \<and> log_ok cfg (failure_line i (max_retries cfg) e))"
| "phase_ok cfg i (Unlogged e) =
     (limiter_ok cfg \<and> ends_with cfg i e \<and> \<not> log_ok cfg (failure_line i (max_retries cfg) e))"
| "phase_ok cfg i Rejected = (\<not> limiter_ok cfg)"

text \<open>The phase the \<^verbatim>\<open>except\<close> branch leaves task \<open>i\<close> in.\<close>

definition end_phase :: "('a, 'r) config \<Rightarrow> nat \<Rightarrow> exn \<Rightarrow> 'r phase" where
  "end_phase cfg i e =
     (if log_ok cfg (failure_line i (max_retries cfg) e) then Failed e else Unlogged e)"

definition inv_phase :: "('a, 'r) config \<Rightarrow> ('a, 'r) state \<Rightarrow> bool" where
  "inv_phase cfg s = (\<forall>i < length (items cfg). phase_ok cfg i (phase s ! i))"

text \<open>The slots assigned so far are those of the tasks that have ended without an
  exception, each assigned once.\<close>

definition inv_writes :: "('a, 'r) state \<Rightarrow> bool" where
  "inv_writes s =
     (distinct (writes s)
      \<and> set (writes s) = {i. i < length (phase s) \<and> written (phase s ! i)})"

text \<open>Every call of the process function got the item of its task and the keyword
  arguments of the configuration, none of which is named \<^verbatim>\<open>fn\<close> or \<^verbatim>\<open>item\<close>, and the
  number of calls made for a task is the number its phase tells.\<close>

fun calls_ok :: "('a, 'r) config \<Rightarrow> nat \<Rightarrow> 'r phase \<Rightarrow> bool" where
  "calls_ok cfg c (Backoff k) = (c = (if kwargs cfg ''item'' = None then k else 0))"
| "calls_ok cfg c (Calling k) = (c = (if kwargs cfg ''item'' = None then k else 0))"
| "calls_ok cfg c (Succeeded v) = (c \<le> attempt_budget (max_retries cfg))"
| "calls_ok cfg c (Failed e) = (c \<le> attempt_budget (max_retries cfg))"
| "calls_ok cfg c (Unlogged e) = (c \<le> attempt_budget (max_retries cfg))"
| "calls_ok cfg c p = (c = 0)"

definition inv_calls :: "('a, 'r) config \<Rightarrow> ('a, 'r) state \<Rightarrow> bool" where
  "inv_calls cfg s =
     ((\<forall>c \<in> set (calls s).
          fst c < length (items cfg) \<and> fst (snd c) = items cfg ! fst c
          \<and> snd (snd c) = kwargs cfg)
      \<and> (calls s \<noteq> [] \<longrightarrow> kwargs cfg ''fn'' = None \<and> kwargs cfg ''item'' = None)
      \<and> (\<forall>i < length (items cfg). calls_ok cfg (calls_of i s) (phase s ! i)))"

text \<open>The failure of every task that has ended through the whole \<^verbatim>\<open>except\<close> branch is
  in the log, with its index, \<^verbatim>\<open>max_retries\<close> and the text of its exception.\<close>

definition inv_log :: "('a, 'r) config \<Rightarrow> ('a, 'r) state \<Rightarrow> bool" where
  "inv_log cfg s =
     (\<forall>i < length (phase s). \<forall>e. phase s ! i = Failed e
        \<longrightarrow> Error (failure_line i (max_retries cfg) e) \<in> set (logged s))"

text \<open>An exception is kept for \<^verbatim>\<open>gather\<close> exactly when a task has ended with one, and
  only such an exception can leave the function.\<close>

definition inv_crash :: "('a, 'r) state \<Rightarrow> bool" where
  "inv_crash s =
     ((crash s = None \<longleftrightarrow> (\<forall>i < length (phase s). \<not> died (phase s ! i)))
      \<and> (escaped s \<noteq> None \<longrightarrow> crash s \<noteq> None \<and> \<not> returned s))"

text \<open>The progress updates are those of the completions so far, followed by the closing
  one once \<^verbatim>\<open>gather\<close> has returned without an exception, which it does only when every
  task has assigned its slot.\<close>

definition inv_updates :: "('a, 'r) config \<Rightarrow> ('a, 'r) state \<Rightarrow> bool" where
  "inv_updates cfg s =
     (updates s = progress_marks (length (items cfg)) (completed s)
                    @ (if returned s \<and> crash s = None then [length (items cfg)] else [])
      \<and> (returned s \<and> crash s = None \<longrightarrow> list_all written (phase s)))"

definition invariant :: "('a, 'r) config \<Rightarrow> ('a, 'r) state \<Rightarrow> bool" where
  "invariant cfg s =
     (inv_len cfg s \<and> inv_sem cfg s \<and> inv_count s \<and> inv_slot cfg s \<and> inv_phase cfg s
      \<and> inv_writes s \<and> inv_calls cfg s \<and> inv_log cfg s \<and> inv_crash s \<and> inv_updates cfg s)"

text \<open>A bound on the number of events a task can still take part in, and on the number
  of events left in a run.\<close>

fun rank :: "nat \<Rightarrow> 'r phase \<Rightarrow> nat" where
  "rank b Created = 2 * b + 3"
| "rank b AtGate = 2 * b + 2"
| "rank b (Backoff k) = 2 * (b - k) + 1"
| "rank b (Calling k) = 2 * (b - k) + 2"
| "rank b p = 0"

definition steps_left :: "('a, 'r) config \<Rightarrow> ('a, 'r) state \<Rightarrow> nat" where
  "steps_left cfg s =
     sum_list (map (rank (attempt_budget (max_retries cfg))) (phase s))
       + (if active s then 1 else 0)"

section \<open>Example inputs\<close>

text \<open>The list a call returns, if it returns one.\<close>

fun results_of :: "('a, 'r) run \<Rightarrow> 'r option list option" where
  "results_of (Returned s) = Some (results s)"
| "results_of r = None"

text \<open>Whether a text occurs in a line.\<close>

fun has_infix :: "string \<Rightarrow> string \<Rightarrow> bool" where
  "has_infix p [] = (p = [])"
| "has_infix p (c # cs) = (take (length p) (c # cs) = p \<or> has_infix p cs)"

text \<open>Values for the parameters that stand for Python and Rich, which agree with them on
  the lines and values of the examples: \<^verbatim>\<open>float("2")\<close> is \<open>2\<close> and \<^verbatim>\<open>float("fast")\<close>
  raises; Rich rejects a line with the closing tag \<^verbatim>\<open>[/INST]\<close>, which closes nothing, and
  for the line \<^verbatim>\<open>Task 0 failed after 0 retries: [/INST]\<close> behind the icon it raises with
  the text below.\<close>

definition sample_float :: "string \<Rightarrow> real option" where
  "sample_float t = (if t = ''2'' then Some 2 else None)"

definition sample_markup_ok :: "string \<Rightarrow> bool" where
  "sample_markup_ok line = (\<not> has_infix ''[/INST]'' line)"

definition sample_markup_error :: "string \<Rightarrow> string" where
  "sample_markup_error line =
     ''closing tag '[/INST]' at position 33 doesn't match any open tag''"

text \<open>A process function that always fails on the item \<open>0\<close> and succeeds on any other
  item at the third attempt, two items, one worker, and an execution in which the second
  item is processed first.\<close>

definition demo_func :: "(nat, nat) process_func" where
  "demo_func x kw n =
     (if x = 0 then Raises (Exception ''boom'')
      else if n < 3 then Raises (Exception ''again'')
      else Returns (Some (x + 10)))"

definition demo_config :: "(nat, nat) config" where
  "demo_config =
     \<lparr>items = [0, 5], process_func = demo_func, workers = 1, max_retries = 2, timeout = 0,
      rate_limit_per_sec = 0, kwargs = Map.empty, markup_ok = sample_markup_ok,
      markup_error = sample_markup_error\<rparr>"

definition demo_schedule :: "event list" where
  "demo_schedule =
     [Acquire 1, Call 1, Return 1, Call 1, Return 1, Call 1, Return 1,
      Acquire 0, Call 0, Return 0, Call 0, Return 0, Call 0, Return 0, Gather]"

text \<open>A process function that succeeds with the value \<^verbatim>\<open>None\<close>, one that always raises,
  and one that always raises an exception whose text is the closing tag.\<close>

definition none_func :: "(nat, nat) process_func" where
  "none_func x kw n = Returns None"

definition fail_func :: "(nat, nat) process_func" where
  "fail_func x kw n = Raises (Exception ''boom'')"

definition tag_func :: "(nat, nat) process_func" where
  "tag_func x kw n = Raises (Exception ''[/INST]'')"

definition none_config :: "(nat, nat) config" where
  "none_config =
     \<lparr>items = [7], process_func = none_func, workers = 1, max_retries = 0, timeout = 0,
      rate_limit_per_sec = 0, kwargs = Map.empty, markup_ok = sample_markup_ok,
      markup_error = sample_markup_error\<rparr>"

definition none_schedule :: "event list" where
  "none_schedule = [Acquire 0, Call 0, Return 0, Gather]"

text \<open>An environment for the run above, a second execution of the same two items with
  two workers in which the tasks interleave, keyword arguments with a rate limit, and an
  environment whose schedule passes the rate limiter.\<close>

definition demo_env :: env where
  "demo_env =
     \<lparr>cpu_count = Some 4, running_loop = False, schedule = demo_schedule,
      str_to_float = sample_float, rich_markup_ok = sample_markup_ok,
      rich_markup_error = sample_markup_error\<rparr>"

definition demo_schedule2 :: "event list" where
  "demo_schedule2 =
     [Acquire 0, Acquire 1, Call 0, Call 1, Return 1, Return 0, Call 0, Call 1, Return 0,
      Return 1, Call 1, Call 0, Return 0, Return 1, Gather]"


definition limited_env :: env where
  "limited_env = demo_env\<lparr>cpu_count := None, schedule := [Permit 0, Acquire 0, Call 0, Return 0, Gather]\<rparr>"

text \<open>An environment in which the timer of the only item fires during its first call,
  one in which the only item fails and \<^verbatim>\<open>gather\<close> raises, and one in which the limiter
  rejects both of two items.\<close>

definition timeout_env :: env where
  "timeout_env = demo_env\<lparr>cpu_count := None, schedule := [Acquire 0, Call 0, Expire 0, Gather]\<rparr>"

definition tag_env :: env where
  "tag_env = demo_env\<lparr>schedule := [Acquire 0, Call 0, Return 0, GatherRaise]\<rparr>"

definition rejected_schedule :: "event list" where
  "rejected_schedule = [Permit 0, Permit 1, GatherRaise]"

section \<open>Properties\<close>

subsection \<open>Worker count\<close>

text \<open>Claim C7. With an explicit count \<open>w\<close>, \<^verbatim>\<open>determine_worker_count\<close> returns
  \<open>max 1 w\<close>, so a positive count is used unchanged and the floor is 1. With no count it
  returns \<open>min (2 * c) 128\<close>, where \<open>c\<close> is the number of logical CPUs that
  \<^verbatim>\<open>os.cpu_count()\<close> reports (and 4 stands in for \<open>c\<close> when it reports none).\<close>

theorem determine_worker_count_spec:
  "determine_worker_count cpu (Some w) = max 1 w
   \<and> (1 \<le> w \<longrightarrow> determine_worker_count cpu (Some w) = w)
   \<and> (0 < c \<longrightarrow> determine_worker_count (Some c) None = min (2 * int c) 128)
   \<and> determine_worker_count cpu None = min (2 * cpu_count_or_4 cpu) 128"
  by (simp add: determine_worker_count_def cpu_count_or_4_def mult.commute)

theorem determine_worker_count_spec_witness:
  "determine_worker_count (Some 8) (Some 0) = 1
   \<and> determine_worker_count (Some 8) (Some 12) = 12
   \<and> determine_worker_count (Some 8) None = 16
   \<and> determine_worker_count (Some 100) None = 128"
  using determine_worker_count_spec [of "Some 8" 0 8]
    determine_worker_count_spec [of "Some 8" 12 100]
  by (simp add: cpu_count_or_4_def)

subsection \<open>Log lines\<close>

lemma show_nat_unfold:
  "show_nat n = (if n < 10 then [digit_char n] else show_nat (n div 10) @ [digit_char (n mod 10)])"
  by (rule show_nat.simps)

declare show_nat.simps [simp del]

lemma digit_char_plain: "d < 10 \<Longrightarrow> digit_char d \<noteq> CHR ''[''"
proof -
  assume "d < 10"
  then have "digit_char d \<in> set ''0123456789''"
    unfolding digit_char_def by (intro nth_mem) simp
  then show ?thesis by auto
qed

lemma show_nat_plain: "CHR ''['' \<notin> set (show_nat n)"
proof (induction n rule: show_nat.induct)
  case (1 n)
  show ?case
  proof (cases "n < 10")
    case True
    then show ?thesis using digit_char_plain[of n] by (subst show_nat_unfold) simp
  next
    case False
    have "n mod 10 < 10" by simp
    then have "digit_char (n mod 10) \<noteq> CHR ''[''" by (rule digit_char_plain)
    with False 1 show ?thesis by (subst show_nat_unfold) auto
  qed
qed

lemma show_int_plain: "CHR ''['' \<notin> set (show_int i)"
  using show_nat_plain by (simp add: show_int_def)

text \<open>A failure line holds an opening bracket only if the text of the exception does.\<close>

lemma failure_line_plain:
  "CHR ''['' \<in> set (failure_line i mr e) \<longleftrightarrow> CHR ''['' \<in> set (exn_text e)"
  using show_nat_plain[of i] show_int_plain[of mr] by (simp add: failure_line_def)

lemma log_ok_plain: "CHR ''['' \<notin> set (exn_text e) \<Longrightarrow> log_ok cfg (failure_line i mr e)"
  by (simp add: log_ok_def failure_line_plain)


lemma log_ok_fn_clash: "log_ok cfg (failure_line i mr fn_clash)"
  by (rule log_ok_plain) (simp add: fn_clash_def)

lemma log_ok_limiter: "log_ok cfg (gather_line cfg LimiterError)"
  by (simp add: log_ok_def gather_line_def)

lemma log_ok_no_items: "log_ok cfg ''No items to process.''"
  by (simp add: log_ok_def)

subsection \<open>Lists under update\<close>

lemma filter_update_length:
  "i < length xs \<Longrightarrow>
     length (filter P (xs[i := y])) + (if P (xs ! i) then 1 else 0)
       = length (filter P xs) + (if P y then 1 else 0)"
proof (induction xs arbitrary: i)
  case Nil
  then show ?case by simp
next
  case (Cons x xs)
  then show ?case by (cases i) auto
qed

lemma sum_list_map_update:
  fixes f :: "'a \<Rightarrow> nat"
  shows "i < length xs \<Longrightarrow>
     sum_list (map f (xs[i := y])) + f (xs ! i) = sum_list (map f xs) + f y"
proof (induction xs arbitrary: i)
  case Nil
  then show ?case by simp
next
  case (Cons x xs)
  then show ?case by (cases i) auto
qed

lemma complete_simps [simp]:
  "phase (complete cfg s) = phase s"
  "results (complete cfg s) = results s"
  "writes (complete cfg s) = writes s"
  "sem (complete cfg s) = sem s + 1"
  "completed (complete cfg s) = completed s + 1"
  "logged (complete cfg s) = logged s"
  "calls (complete cfg s) = calls s"
  "crash (complete cfg s) = crash s"
  "returned (complete cfg s) = returned s"
  "escaped (complete cfg s) = escaped s"
  by (simp_all add: complete_def Let_def)

lemma store_result_simps [simp]:
  "phase (store_result i v s) = (phase s)[i := Succeeded v]"
  "results (store_result i v s) = (results s)[i := v]"
  "writes (store_result i v s) = writes s @ [i]"
  "sem (store_result i v s) = sem s"
  "completed (store_result i v s) = completed s"
  "updates (store_result i v s) = updates s"
  "logged (store_result i v s) = logged s"
  "calls (store_result i v s) = calls s"
  "crash (store_result i v s) = crash s"
  "returned (store_result i v s) = returned s"
  "escaped (store_result i v s) = escaped s"
  by (simp_all add: store_result_def)

lemma note_crash_simps [simp]:
  "phase (note_crash c s) = phase s"
  "results (note_crash c s) = results s"
  "writes (note_crash c s) = writes s"
  "sem (note_crash c s) = sem s"
  "completed (note_crash c s) = completed s"
  "updates (note_crash c s) = updates s"
  "logged (note_crash c s) = logged s"
  "calls (note_crash c s) = calls s"
  "crash (note_crash c s) \<noteq> None"
  "crash s = None \<Longrightarrow> crash (note_crash c s) = Some c"
  "crash s = Some c' \<Longrightarrow> crash (note_crash c s) = Some c'"
  "returned (note_crash c s) = returned s"
  "escaped (note_crash c s) = escaped s"
  by (simp_all add: note_crash_def split: option.splits)

lemma end_phase_simps [simp]:
  "terminal (end_phase cfg i e)"
  "\<not> running (end_phase cfg i e)"
  "slot_of (end_phase cfg i e) = None"
  "rank b (end_phase cfg i e) = 0"
  "written (end_phase cfg i e) \<longleftrightarrow> log_ok cfg (failure_line i (max_retries cfg) e)"
  "died (end_phase cfg i e) \<longleftrightarrow> \<not> log_ok cfg (failure_line i (max_retries cfg) e)"
  "end_phase cfg i e = Failed e' \<longleftrightarrow> e' = e \<and> log_ok cfg (failure_line i (max_retries cfg) e)"
  by (auto simp: end_phase_def)

lemma except_branch_simps [simp]:
  "phase (except_branch cfg i e s) = (phase s)[i := end_phase cfg i e]"
  "results (except_branch cfg i e s) =
     (if log_ok cfg (failure_line i (max_retries cfg) e) then (results s)[i := None]
      else results s)"
  "writes (except_branch cfg i e s) =
     (if log_ok cfg (failure_line i (max_retries cfg) e) then writes s @ [i] else writes s)"
  "sem (except_branch cfg i e s) = sem s"
  "completed (except_branch cfg i e s) = completed s"
  "updates (except_branch cfg i e s) = updates s"
  "logged (except_branch cfg i e s) =
     (if log_ok cfg (failure_line i (max_retries cfg) e)
      then logged s @ [Error (failure_line i (max_retries cfg) e)] else logged s)"
  "calls (except_branch cfg i e s) = calls s"
  "returned (except_branch cfg i e s) = returned s"
  "escaped (except_branch cfg i e s) = escaped s"
  by (simp_all add: except_branch_def store_failure_def end_phase_def)

lemma crash_except_branch:
  "log_ok cfg (failure_line i (max_retries cfg) e) \<Longrightarrow> crash (except_branch cfg i e s) = crash s"
  "\<not> log_ok cfg (failure_line i (max_retries cfg) e) \<Longrightarrow> crash (except_branch cfg i e s) \<noteq> None"
  "crash s \<noteq> None \<Longrightarrow> crash (except_branch cfg i e s) = crash s"
  by (auto simp: except_branch_def store_failure_def)

lemma updates_complete:
  "updates (complete cfg s) =
     (if Suc (completed s) mod 10 = 0 \<or> Suc (completed s) = length (items cfg)
      then updates s @ [Suc (completed s)] else updates s)"
  by (simp add: complete_def Let_def)

text \<open>Case analysis of one step.\<close>

lemma step_cases:
  assumes "step cfg ev s = Some s'"
  obtains
    (Grant) i where "ev = Permit i" "active s" "i < length (phase s)" "phase s ! i = Created"
      "has_limiter cfg" "1 \<le> rate_limit_per_sec cfg"
      "s' = s\<lparr>phase := (phase s)[i := AtGate]\<rparr>"
  | (Reject) i where "ev = Permit i" "active s" "i < length (phase s)" "phase s ! i = Created"
      "has_limiter cfg" "\<not> 1 \<le> rate_limit_per_sec cfg"
      "s' = note_crash LimiterError (s\<lparr>phase := (phase s)[i := Rejected]\<rparr>)"
  | (Acquire) i where "ev = Acquire i" "active s" "i < length (phase s)"
      "phase s ! i = AtGate \<or> (phase s ! i = Created \<and> \<not> has_limiter cfg)" "0 < sem s"
      "s' = s\<lparr>phase := (phase s)[i := Backoff 0], sem := sem s - 1\<rparr>"
  | (Call) i k where "ev = Call i" "active s" "i < length (phase s)" "i < length (items cfg)"
      "phase s ! i = Backoff k" "kwargs cfg ''fn'' = None"
      "s' = s\<lparr>phase := (phase s)[i := Calling (Suc k)],
               calls := (if kwargs cfg ''item'' = None
                         then calls s @ [(i, items cfg ! i, kwargs cfg)] else calls s)\<rparr>"
  | (Clash) i k where "ev = Call i" "active s" "i < length (phase s)" "i < length (items cfg)"
      "phase s ! i = Backoff k" "kwargs cfg ''fn'' \<noteq> None"
      "s' = complete cfg (except_branch cfg i fn_clash s)"
  | (Success) i k v where "ev = Return i" "active s" "i < length (phase s)"
      "i < length (items cfg)" "phase s ! i = Calling k"
      "bind_item (process_func cfg) (items cfg ! i) (kwargs cfg) k = Returns v"
      "s' = complete cfg (store_result i v s)"
  | (Exhausted) i k e where "ev = Return i" "active s" "i < length (phase s)"
      "i < length (items cfg)" "phase s ! i = Calling k"
      "bind_item (process_func cfg) (items cfg ! i) (kwargs cfg) k = Raises e"
      "max_retries cfg + 1 \<le> int k"
      "s' = complete cfg (except_branch cfg i e s)"
  | (Retry) i k e where "ev = Return i" "active s" "i < length (phase s)"
      "i < length (items cfg)" "phase s ! i = Calling k"
      "bind_item (process_func cfg) (items cfg ! i) (kwargs cfg) k = Raises e"
      "\<not> max_retries cfg + 1 \<le> int k"
      "s' = s\<lparr>phase := (phase s)[i := Backoff k]\<rparr>"
  | (Expire) i where "ev = Expire i" "active s" "i < length (phase s)" "timeout_enabled cfg"
      "running (phase s ! i)"
      "s' = complete cfg (except_branch cfg i TimeoutError s)"
  | (Gather) "ev = Gather" "active s" "list_all written (phase s)"
      "s' = s\<lparr>updates := updates s @ [length (items cfg)], returned := True\<rparr>"
  | (Handled) c where "ev = GatherRaise" "active s" "crash s = Some c"
      "log_ok cfg (gather_line cfg c)"
      "s' = s\<lparr>logged := logged s @ [Error (gather_line cfg c)], returned := True\<rparr>"
  | (Escaped) c where "ev = GatherRaise" "active s" "crash s = Some c"
      "\<not> log_ok cfg (gather_line cfg c)"
      "s' = s\<lparr>escaped := Some MarkupError\<rparr>"
proof (cases ev)
  case (Permit i)
  from assms have a: "active s" "i < length (phase s)" "phase s ! i = Created" "has_limiter cfg"
    unfolding Permit by (simp_all split: if_splits)
  show ?thesis
  proof (cases "1 \<le> rate_limit_per_sec cfg")
    case True
    with assms a have "s' = s\<lparr>phase := (phase s)[i := AtGate]\<rparr>" unfolding Permit by simp
    with Permit a True show ?thesis by (intro Grant[of i]) simp_all
  next
    case False
    with assms a
    have "s' = note_crash LimiterError (s\<lparr>phase := (phase s)[i := Rejected]\<rparr>)"
      unfolding Permit by simp
    with Permit a False show ?thesis by (intro Reject[of i]) simp_all
  qed
next
  case (Acquire i)
  from assms have a: "active s" "i < length (phase s)"
    "phase s ! i = AtGate \<or> (phase s ! i = Created \<and> \<not> has_limiter cfg)" "0 < sem s"
    unfolding Acquire by (simp_all split: if_splits)
  with assms have "s' = s\<lparr>phase := (phase s)[i := Backoff 0], sem := sem s - 1\<rparr>"
    unfolding Acquire by (simp split: if_splits)
  with Acquire a show ?thesis by (intro that(3)[of i]) simp_all
next
  case (Call i)
  from assms have a: "active s" "i < length (phase s)" "i < length (items cfg)"
    unfolding Call by (simp_all split: if_splits)
  with assms obtain k where k: "phase s ! i = Backoff k"
    unfolding Call by (cases "phase s ! i") simp_all
  show ?thesis
  proof (cases "kwargs cfg ''fn'' = None")
    case True
    with assms a k
    have "s' = s\<lparr>phase := (phase s)[i := Calling (Suc k)],
               calls := (if kwargs cfg ''item'' = None
                         then calls s @ [(i, items cfg ! i, kwargs cfg)] else calls s)\<rparr>"
      unfolding Call by simp
    with Call a k True show ?thesis by (intro that(4)[of i k]) simp_all
  next
    case False
    with assms a k have "s' = complete cfg (except_branch cfg i fn_clash s)"
      unfolding Call by simp
    with Call a k False show ?thesis by (intro Clash[of i k]) simp_all
  qed
next
  case (Return i)
  from assms have a: "active s" "i < length (phase s)" "i < length (items cfg)"
    unfolding Return by (simp_all split: if_splits)
  with assms obtain k where k: "phase s ! i = Calling k"
    unfolding Return by (cases "phase s ! i") simp_all
  show ?thesis
  proof (cases "bind_item (process_func cfg) (items cfg ! i) (kwargs cfg) k")
    case (Returns v)
    with assms a k have "s' = complete cfg (store_result i v s)" unfolding Return by simp
    with Return a k Returns show ?thesis by (intro Success[of i k v]) simp_all
  next
    case (Raises e)
    show ?thesis
    proof (cases "max_retries cfg + 1 \<le> int k")
      case True
      with assms a k Raises have "s' = complete cfg (except_branch cfg i e s)"
        unfolding Return by simp
      with Return a k Raises True show ?thesis by (intro Exhausted[of i k e]) simp_all
    next
      case False
      with assms a k Raises have "s' = s\<lparr>phase := (phase s)[i := Backoff k]\<rparr>"
        unfolding Return by simp
      with Return a k Raises False show ?thesis by (intro Retry[of i k e]) simp_all
    qed
  qed
next
  case (Expire i)
  from assms have a: "active s" "i < length (phase s)" "timeout_enabled cfg"
    "running (phase s ! i)"
    unfolding Expire by (simp_all split: if_splits)
  with assms have "s' = complete cfg (except_branch cfg i TimeoutError s)"
    unfolding Expire by simp
  with Expire a show ?thesis by (intro that(9)[of i]) simp_all
next
  case Gather
  from assms have a: "active s" "list_all written (phase s)"
    unfolding Gather by (simp_all split: if_splits)
  with assms have "s' = s\<lparr>updates := updates s @ [length (items cfg)], returned := True\<rparr>"
    unfolding Gather by simp
  with Gather a show ?thesis by (intro that(10)) simp_all
next
  case GatherRaise
  from assms have a: "active s" unfolding GatherRaise by (simp split: if_splits)
  with assms obtain c where c: "crash s = Some c"
    unfolding GatherRaise by (cases "crash s") simp_all
  show ?thesis
  proof (cases "log_ok cfg (gather_line cfg c)")
    case True
    with assms a c
    have "s' = s\<lparr>logged := logged s @ [Error (gather_line cfg c)], returned := True\<rparr>"
      unfolding GatherRaise by simp
    with GatherRaise a c True show ?thesis by (intro Handled[of c]) simp_all
  next
    case False
    with assms a c have "s' = s\<lparr>escaped := Some MarkupError\<rparr>"
      unfolding GatherRaise by simp
    with GatherRaise a c False show ?thesis by (intro Escaped[of c]) simp_all
  qed
qed

lemma inv_len_step:
  assumes "inv_len cfg s" "step cfg ev s = Some s'"
  shows "inv_len cfg s'"
  using assms(2)
  by (cases rule: step_cases) (use assms(1) in \<open>auto simp: inv_len_def\<close>)

lemma running_update:
  assumes "i < length ps" "running (ps ! i) = running p"
  shows "length (filter running (ps[i := p])) = length (filter running ps)"
  using filter_update_length[OF assms(1), of running p] assms(2) by simp

lemma running_update_start:
  assumes "i < length ps" "\<not> running (ps ! i)" "running p"
  shows "length (filter running (ps[i := p])) = Suc (length (filter running ps))"
  using filter_update_length[OF assms(1), of running p] assms(2,3) by simp

lemma running_update_end:
  assumes "i < length ps" "running (ps ! i)" "\<not> running p"
  shows "Suc (length (filter running (ps[i := p]))) = length (filter running ps)"
  using filter_update_length[OF assms(1), of running p] assms(2,3) by simp

lemma inv_sem_step:
  assumes "inv_sem cfg s" "step cfg ev s = Some s'"
  shows "inv_sem cfg s'"
  using assms(2)
proof (cases rule: step_cases)
  case (Grant i)
  with assms(1) running_update[of i "phase s" AtGate] show ?thesis
    by (auto simp: inv_sem_def running_count_def)
next
  case (Reject i)
  with assms(1) running_update[of i "phase s" Rejected] show ?thesis
    by (auto simp: inv_sem_def running_count_def)
next
  case (Acquire i)
  with assms(1) running_update_start[of i "phase s" "Backoff 0"] show ?thesis
    by (auto simp: inv_sem_def running_count_def)
next
  case (Call i k)
  with assms(1) running_update[of i "phase s" "Calling (Suc k)"] show ?thesis
    by (auto simp: inv_sem_def running_count_def)
next
  case (Clash i k)
  with assms(1) running_update_end[of i "phase s" "end_phase cfg i fn_clash"] show ?thesis
    by (auto simp: inv_sem_def running_count_def)
next
  case (Success i k v)
  with assms(1) running_update_end[of i "phase s" "Succeeded v"] show ?thesis
    by (auto simp: inv_sem_def running_count_def)
next
  case (Exhausted i k e)
  with assms(1) running_update_end[of i "phase s" "end_phase cfg i e"] show ?thesis
    by (auto simp: inv_sem_def running_count_def)
next
  case (Retry i k e)
  with assms(1) running_update[of i "phase s" "Backoff k"] show ?thesis
    by (auto simp: inv_sem_def running_count_def)
next
  case (Expire i)
  with assms(1) running_update_end[of i "phase s" "end_phase cfg i TimeoutError"] show ?thesis
    by (auto simp: inv_sem_def running_count_def)
next
  case Gather
  with assms(1) show ?thesis by (auto simp: inv_sem_def running_count_def)
next
  case (Handled c)
  with assms(1) show ?thesis by (auto simp: inv_sem_def running_count_def)
next
  case (Escaped c)
  with assms(1) show ?thesis by (auto simp: inv_sem_def running_count_def)
qed

lemma terminal_update:
  assumes "i < length ps" "\<not> terminal (ps ! i)" "\<not> terminal p"
  shows "length (filter terminal (ps[i := p])) = length (filter terminal ps)"
  using filter_update_length[OF assms(1), of terminal p] assms(2,3) by simp

lemma terminal_update_end:
  assumes "i < length ps" "\<not> terminal (ps ! i)" "terminal p"
  shows "length (filter terminal (ps[i := p])) = Suc (length (filter terminal ps))"
  using filter_update_length[OF assms(1), of terminal p] assms(2,3) by simp

lemma running_not_terminal: "running p \<Longrightarrow> \<not> terminal p"
  by (cases p) simp_all

lemma inv_count_step:
  assumes "inv_count s" "step cfg ev s = Some s'"
  shows "inv_count s'"
  using assms(2)
proof (cases rule: step_cases)
  case (Grant i)
  with assms(1) terminal_update[of i "phase s" AtGate] show ?thesis
    by (auto simp: inv_count_def terminal_count_def)
next
  case (Reject i)
  with assms(1) terminal_update[of i "phase s" Rejected] show ?thesis
    by (auto simp: inv_count_def terminal_count_def)
next
  case (Acquire i)
  with assms(1) terminal_update[of i "phase s" "Backoff 0"] show ?thesis
    by (auto simp: inv_count_def terminal_count_def)
next
  case (Call i k)
  with assms(1) terminal_update[of i "phase s" "Calling (Suc k)"] show ?thesis
    by (auto simp: inv_count_def terminal_count_def)
next
  case (Clash i k)
  with assms(1) terminal_update_end[of i "phase s" "end_phase cfg i fn_clash"] show ?thesis
    by (auto simp: inv_count_def terminal_count_def)
next
  case (Success i k v)
  with assms(1) terminal_update_end[of i "phase s" "Succeeded v"] show ?thesis
    by (auto simp: inv_count_def terminal_count_def)
next
  case (Exhausted i k e)
  with assms(1) terminal_update_end[of i "phase s" "end_phase cfg i e"] show ?thesis
    by (auto simp: inv_count_def terminal_count_def)
next
  case (Retry i k e)
  with assms(1) terminal_update[of i "phase s" "Backoff k"] show ?thesis
    by (auto simp: inv_count_def terminal_count_def)
next
  case (Expire i)
  with assms(1) terminal_update_end[of i "phase s" "end_phase cfg i TimeoutError"]
    running_not_terminal[of "phase s ! i"] show ?thesis
    by (auto simp: inv_count_def terminal_count_def)
next
  case Gather
  with assms(1) show ?thesis by (auto simp: inv_count_def terminal_count_def)
next
  case (Handled c)
  with assms(1) show ?thesis by (auto simp: inv_count_def terminal_count_def)
next
  case (Escaped c)
  with assms(1) show ?thesis by (auto simp: inv_count_def terminal_count_def)
qed

lemma inv_slot_step:
  assumes "inv_slot cfg s" "inv_len cfg s" "step cfg ev s = Some s'"
  shows "inv_slot cfg s'"
  using assms(3)
proof (cases rule: step_cases)
  case (Expire i)
  then have "slot_of (phase s ! i) = None" by (cases "phase s ! i") simp_all
  with Expire assms(1,2) show ?thesis
    by (auto simp: inv_slot_def inv_len_def nth_list_update)
qed (use assms(1,2) in \<open>auto simp: inv_slot_def inv_len_def nth_list_update\<close>)

lemma retry_from_unfold:
  "retry_from func mr item kw n =
     (case func item kw n of
        Returns v \<Rightarrow> (Returns v, n)
      | Raises e \<Rightarrow> if mr + 1 \<le> int n then (Raises e, n) else retry_from func mr item kw (Suc n))"
  by (rule retry_from.simps)

lemma inv_phase_init: "inv_phase cfg (init_state cfg)"
  by (simp add: inv_phase_def init_state_def)

lemma inv_phase_update:
  assumes "inv_phase cfg s" "inv_len cfg s" "i < length (phase s)" "phase_ok cfg i p"
    "phase s' = (phase s)[i := p]"
  shows "inv_phase cfg s'"
  using assms by (auto simp: inv_phase_def inv_len_def nth_list_update)

lemma inv_phase_at: "inv_phase cfg s \<Longrightarrow> i < length (items cfg) \<Longrightarrow> phase_ok cfg i (phase s ! i)"
  by (simp add: inv_phase_def)

lemma phase_ok_end:
  "limiter_ok cfg \<Longrightarrow> ends_with cfg i e \<Longrightarrow> phase_ok cfg i (end_phase cfg i e)"
  by (simp add: end_phase_def)

lemma running_limiter_ok: "running p \<Longrightarrow> phase_ok cfg i p \<Longrightarrow> limiter_ok cfg"
  by (cases p) simp_all

lemma inv_phase_step:
  assumes "inv_phase cfg s" "inv_len cfg s" "step cfg ev s = Some s'"
  shows "inv_phase cfg s'"
  using assms(3)
proof (cases rule: step_cases)
  case (Grant i)
  then have "phase_ok cfg i AtGate" by (simp add: limiter_ok_def)
  from inv_phase_update[OF assms(1,2) Grant(3) this] Grant show ?thesis by simp
next
  case (Reject i)
  then have "phase_ok cfg i Rejected" by (simp add: limiter_ok_def)
  from inv_phase_update[OF assms(1,2) Reject(3) this] Reject show ?thesis by simp
next
  case (Acquire i)
  have i: "i < length (items cfg)" using Acquire(3) assms(2) by (simp add: inv_len_def)
  have "limiter_ok cfg"
    using Acquire(4) inv_phase_at[OF assms(1) i] by (auto simp: limiter_ok_def)
  then have "phase_ok cfg i (Backoff 0)"
    by (simp add: attempt_budget_def make_retry_async_def)
  from inv_phase_update[OF assms(1,2) Acquire(3) this] Acquire show ?thesis by simp
next
  case (Call i k)
  from inv_phase_at[OF assms(1) Call(4)] Call(5) have "phase_ok cfg i (Backoff k)" by simp
  then have "phase_ok cfg i (Calling (Suc k))" using Call(6) by simp
  from inv_phase_update[OF assms(1,2) Call(3) this] Call show ?thesis by simp
next
  case (Clash i k)
  from inv_phase_at[OF assms(1) Clash(4)] Clash(5) have "limiter_ok cfg" by simp
  moreover have "ends_with cfg i fn_clash"
    using Clash(6) by (simp add: ends_with_def item_outcome_def safe_call_def)
  ultimately have "phase_ok cfg i (end_phase cfg i fn_clash)" by (rule phase_ok_end)
  from inv_phase_update[OF assms(1,2) Clash(3) this] Clash show ?thesis by simp
next
  case (Success i k v)
  from inv_phase_at[OF assms(1) Success(4)] Success(5) have ok: "phase_ok cfg i (Calling k)"
    by simp
  have "retry_from (bind_item (process_func cfg)) (max_retries cfg) (items cfg ! i) (kwargs cfg) k
          = (Returns v, k)"
    using Success(6) by (subst retry_from_unfold) simp
  with ok have "phase_ok cfg i (Succeeded v)" by (simp add: item_outcome_def safe_call_def)
  from inv_phase_update[OF assms(1,2) Success(3) this] Success show ?thesis by simp
next
  case (Exhausted i k e)
  from inv_phase_at[OF assms(1) Exhausted(4)] Exhausted(5) have ok: "phase_ok cfg i (Calling k)"
    by simp
  have "retry_from (bind_item (process_func cfg)) (max_retries cfg) (items cfg ! i) (kwargs cfg) k
          = (Raises e, k)"
    using Exhausted(6,7) by (subst retry_from_unfold) simp
  with ok have "ends_with cfg i e" "limiter_ok cfg"
    by (simp_all add: ends_with_def item_outcome_def safe_call_def)
  then have "phase_ok cfg i (end_phase cfg i e)" by (simp add: phase_ok_end)
  from inv_phase_update[OF assms(1,2) Exhausted(3) this] Exhausted show ?thesis by simp
next
  case (Retry i k e)
  from inv_phase_at[OF assms(1) Retry(4)] Retry(5) have ok: "phase_ok cfg i (Calling k)"
    by simp
  have "retry_from (bind_item (process_func cfg)) (max_retries cfg) (items cfg ! i) (kwargs cfg) k
        = retry_from (bind_item (process_func cfg)) (max_retries cfg) (items cfg ! i)
            (kwargs cfg) (Suc k)"
    using Retry(6,7) by (subst retry_from_unfold) simp
  moreover have "k < attempt_budget (max_retries cfg)"
    using Retry(7) by (simp add: attempt_budget_def)
  ultimately have "phase_ok cfg i (Backoff k)" using ok by simp
  from inv_phase_update[OF assms(1,2) Retry(3) this] Retry show ?thesis by simp
next
  case (Expire i)
  have i: "i < length (items cfg)" using Expire(3) assms(2) by (simp add: inv_len_def)
  have "limiter_ok cfg" using running_limiter_ok[OF Expire(5) inv_phase_at[OF assms(1) i]] .
  moreover have "ends_with cfg i TimeoutError" using Expire(4) by (simp add: ends_with_def)
  ultimately have "phase_ok cfg i (end_phase cfg i TimeoutError)" by (rule phase_ok_end)
  from inv_phase_update[OF assms(1,2) Expire(3) this] Expire show ?thesis by simp
next
  case Gather
  with assms(1) show ?thesis by (auto simp: inv_phase_def)
next
  case (Handled c)
  with assms(1) show ?thesis by (auto simp: inv_phase_def)
next
  case (Escaped c)
  with assms(1) show ?thesis by (auto simp: inv_phase_def)
qed

lemma written_set_update_other:
  assumes "i < length ps" "\<not> written (ps ! i)" "\<not> written p"
  shows "{j. j < length (ps[i := p]) \<and> written (ps[i := p] ! j)}
         = {j. j < length ps \<and> written (ps ! j)}"
proof (rule set_eqI)
  fix j
  show "j \<in> {j. j < length (ps[i := p]) \<and> written (ps[i := p] ! j)}
        \<longleftrightarrow> j \<in> {j. j < length ps \<and> written (ps ! j)}"
    using assms by (cases "j = i") simp_all
qed

lemma written_set_update_end:
  assumes "i < length ps" "written p"
  shows "{j. j < length (ps[i := p]) \<and> written (ps[i := p] ! j)}
         = insert i {j. j < length ps \<and> written (ps ! j)}"
proof (rule set_eqI)
  fix j
  show "j \<in> {j. j < length (ps[i := p]) \<and> written (ps[i := p] ! j)}
        \<longleftrightarrow> j \<in> insert i {j. j < length ps \<and> written (ps ! j)}"
    using assms by (cases "j = i") simp_all
qed

lemma inv_writes_other:
  assumes "inv_writes s" "i < length (phase s)" "\<not> written (phase s ! i)" "\<not> written p"
    "phase s' = (phase s)[i := p]" "writes s' = writes s"
  shows "inv_writes s'"
  using assms written_set_update_other[of i "phase s" p]
  by (simp add: inv_writes_def)

lemma inv_writes_end:
  assumes "inv_writes s" "i < length (phase s)" "\<not> written (phase s ! i)" "written p"
    "phase s' = (phase s)[i := p]" "writes s' = writes s @ [i]"
  shows "inv_writes s'"
proof -
  have "i \<notin> set (writes s)" using assms(1,3) by (simp add: inv_writes_def)
  then show ?thesis
    using assms written_set_update_end[of i "phase s" p]
    by (simp add: inv_writes_def)
qed

lemma running_not_written: "running p \<Longrightarrow> \<not> written p"
  by (cases p) simp_all

lemma running_not_died: "running p \<Longrightarrow> \<not> died p"
  by (cases p) simp_all

lemma written_not_died: "written p \<Longrightarrow> \<not> died p"
  by (cases p) simp_all

lemma inv_writes_except:
  assumes "inv_writes s" "i < length (phase s)" "\<not> written (phase s ! i)"
  shows "inv_writes (complete cfg (except_branch cfg i e s))"
proof (cases "log_ok cfg (failure_line i (max_retries cfg) e)")
  case True
  then show ?thesis
    by (intro inv_writes_end[OF assms, of "end_phase cfg i e"]) simp_all
next
  case False
  then show ?thesis
    by (intro inv_writes_other[OF assms, of "end_phase cfg i e"]) simp_all
qed

lemma inv_writes_step:
  assumes "inv_writes s" "step cfg ev s = Some s'"
  shows "inv_writes s'"
  using assms(2)
proof (cases rule: step_cases)
  case (Grant i)
  then show ?thesis by (intro inv_writes_other[OF assms(1), of i AtGate]) simp_all
next
  case (Reject i)
  then show ?thesis by (intro inv_writes_other[OF assms(1), of i Rejected]) simp_all
next
  case (Acquire i)
  then show ?thesis by (intro inv_writes_other[OF assms(1), of i "Backoff 0"]) auto
next
  case (Call i k)
  then show ?thesis by (intro inv_writes_other[OF assms(1), of i "Calling (Suc k)"]) simp_all
next
  case (Clash i k)
  then show ?thesis using inv_writes_except[OF assms(1), of i cfg fn_clash] by simp
next
  case (Success i k v)
  then show ?thesis by (intro inv_writes_end[OF assms(1), of i "Succeeded v"]) simp_all
next
  case (Exhausted i k e)
  then show ?thesis using inv_writes_except[OF assms(1), of i cfg e] by simp
next
  case (Retry i k e)
  then show ?thesis by (intro inv_writes_other[OF assms(1), of i "Backoff k"]) simp_all
next
  case (Expire i)
  then show ?thesis
    using inv_writes_except[OF assms(1), of i cfg TimeoutError] running_not_written by blast
next
  case Gather
  with assms(1) show ?thesis by (simp add: inv_writes_def)
next
  case (Handled c)
  with assms(1) show ?thesis by (simp add: inv_writes_def)
next
  case (Escaped c)
  with assms(1) show ?thesis by (simp add: inv_writes_def)
qed

lemma inv_log_other:
  assumes "inv_log cfg s" "i < length (phase s)" "\<And>e. p \<noteq> Failed e"
    "phase s' = (phase s)[i := p]" "set (logged s) \<subseteq> set (logged s')"
  shows "inv_log cfg s'"
  unfolding inv_log_def
proof (intro allI impI)
  fix j e
  assume j: "j < length (phase s')" and f: "phase s' ! j = Failed e"
  have ji: "j \<noteq> i" using f assms(2,3,4) by (cases "j = i") simp_all
  with j f assms(4) have "j < length (phase s)" "phase s ! j = Failed e" by simp_all
  with assms(1) have "Error (failure_line j (max_retries cfg) e) \<in> set (logged s)"
    by (simp add: inv_log_def)
  with assms(5) show "Error (failure_line j (max_retries cfg) e) \<in> set (logged s')" by blast
qed

lemma inv_log_same:
  assumes "inv_log cfg s" "phase s' = phase s" "set (logged s) \<subseteq> set (logged s')"
  shows "inv_log cfg s'"
  using assms unfolding inv_log_def by (simp add: subset_iff)

lemma inv_log_except:
  assumes "inv_log cfg s" "i < length (phase s)"
  shows "inv_log cfg (complete cfg (except_branch cfg i e s))"
  unfolding inv_log_def
proof (intro allI impI)
  fix j e'
  let ?s = "complete cfg (except_branch cfg i e s)"
  assume j: "j < length (phase ?s)" and f: "phase ?s ! j = Failed e'"
  show "Error (failure_line j (max_retries cfg) e') \<in> set (logged ?s)"
  proof (cases "j = i")
    case True
    with f assms(2) have "e' = e" "log_ok cfg (failure_line i (max_retries cfg) e)" by simp_all
    with True show ?thesis by simp
  next
    case False
    with j f have "j < length (phase s)" "phase s ! j = Failed e'" by simp_all
    with assms(1) have "Error (failure_line j (max_retries cfg) e') \<in> set (logged s)"
      by (simp add: inv_log_def)
    then show ?thesis by simp
  qed
qed

lemma inv_log_step:
  assumes "inv_log cfg s" "step cfg ev s = Some s'"
  shows "inv_log cfg s'"
  using assms(2)
proof (cases rule: step_cases)
  case (Grant i)
  then show ?thesis by (intro inv_log_other[OF assms(1), of i AtGate]) simp_all
next
  case (Reject i)
  then show ?thesis by (intro inv_log_other[OF assms(1), of i Rejected]) simp_all
next
  case (Acquire i)
  then show ?thesis by (intro inv_log_other[OF assms(1), of i "Backoff 0"]) simp_all
next
  case (Call i k)
  then show ?thesis by (intro inv_log_other[OF assms(1), of i "Calling (Suc k)"]) simp_all
next
  case (Clash i k)
  then show ?thesis using inv_log_except[OF assms(1), of i fn_clash] by simp
next
  case (Success i k v)
  then show ?thesis by (intro inv_log_other[OF assms(1), of i "Succeeded v"]) simp_all
next
  case (Exhausted i k e)
  then show ?thesis using inv_log_except[OF assms(1), of i e] by simp
next
  case (Retry i k e)
  then show ?thesis by (intro inv_log_other[OF assms(1), of i "Backoff k"]) simp_all
next
  case (Expire i)
  then show ?thesis using inv_log_except[OF assms(1), of i TimeoutError] by simp
next
  case Gather
  then show ?thesis by (intro inv_log_same[OF assms(1)]) simp_all
next
  case (Handled c)
  then show ?thesis by (intro inv_log_same[OF assms(1)]) auto
next
  case (Escaped c)
  then show ?thesis by (intro inv_log_same[OF assms(1)]) simp_all
qed

lemma inv_crash_other:
  assumes "inv_crash s" "i < length (phase s)" "\<not> died (phase s ! i)" "\<not> died p"
    "phase s' = (phase s)[i := p]" "crash s' = crash s" "escaped s' = None"
  shows "inv_crash s'"
proof -
  have "(\<forall>j < length (phase s'). \<not> died (phase s' ! j))
        \<longleftrightarrow> (\<forall>j < length (phase s). \<not> died (phase s ! j))"
  proof
    assume a: "\<forall>j < length (phase s'). \<not> died (phase s' ! j)"
    show "\<forall>j < length (phase s). \<not> died (phase s ! j)"
    proof (intro allI impI)
      fix j assume "j < length (phase s)"
      with a assms(3,5) show "\<not> died (phase s ! j)" by (cases "j = i") auto
    qed
  next
    assume a: "\<forall>j < length (phase s). \<not> died (phase s ! j)"
    show "\<forall>j < length (phase s'). \<not> died (phase s' ! j)"
    proof (intro allI impI)
      fix j assume "j < length (phase s')"
      with a assms(4,5) show "\<not> died (phase s' ! j)" by (cases "j = i") auto
    qed
  qed
  with assms(1,6,7) show ?thesis by (simp add: inv_crash_def)
qed

lemma inv_crash_die:
  assumes "i < length (phase s)" "died p" "phase s' = (phase s)[i := p]" "crash s' \<noteq> None"
    "escaped s' = None"
  shows "inv_crash s'"
proof -
  have "i < length (phase s') \<and> died (phase s' ! i)" using assms(1,2,3) by simp
  then have "\<not> (\<forall>j < length (phase s'). \<not> died (phase s' ! j))" by blast
  with assms(4,5) show ?thesis unfolding inv_crash_def by blast
qed

lemma inv_crash_same:
  assumes "inv_crash s" "phase s' = phase s" "crash s' = crash s" "escaped s' = None"
  shows "inv_crash s'"
  using assms by (simp add: inv_crash_def)

lemma inv_crash_except:
  assumes "inv_crash s" "active s" "i < length (phase s)" "\<not> died (phase s ! i)"
  shows "inv_crash (complete cfg (except_branch cfg i e s))"
proof (cases "log_ok cfg (failure_line i (max_retries cfg) e)")
  case True
  with assms(2) show ?thesis
    by (intro inv_crash_other[OF assms(1,3,4), of "end_phase cfg i e"])
       (simp_all add: crash_except_branch active_def)
next
  case False
  with assms(2) show ?thesis
    by (intro inv_crash_die[OF assms(3), of "end_phase cfg i e"])
       (simp_all add: crash_except_branch active_def)
qed

lemma inv_crash_step:
  assumes "inv_crash s" "step cfg ev s = Some s'"
  shows "inv_crash s'"
  using assms(2)
proof (cases rule: step_cases)
  case (Grant i)
  then show ?thesis
    by (intro inv_crash_other[OF assms(1), of i AtGate]) (simp_all add: active_def)
next
  case (Reject i)
  then show ?thesis
    by (intro inv_crash_die[of i s Rejected]) (simp_all add: active_def)
next
  case (Acquire i)
  then show ?thesis
    by (intro inv_crash_other[OF assms(1), of i "Backoff 0"]) (auto simp: active_def)
next
  case (Call i k)
  then show ?thesis
    by (intro inv_crash_other[OF assms(1), of i "Calling (Suc k)"]) (simp_all add: active_def)
next
  case (Clash i k)
  then show ?thesis using inv_crash_except[OF assms(1), of i cfg fn_clash] by simp
next
  case (Success i k v)
  then show ?thesis
    by (intro inv_crash_other[OF assms(1), of i "Succeeded v"]) (simp_all add: active_def)
next
  case (Exhausted i k e)
  then show ?thesis using inv_crash_except[OF assms(1), of i cfg e] by simp
next
  case (Retry i k e)
  then show ?thesis
    by (intro inv_crash_other[OF assms(1), of i "Backoff k"]) (simp_all add: active_def)
next
  case (Expire i)
  then show ?thesis
    using inv_crash_except[OF assms(1), of i cfg TimeoutError] running_not_died by blast
next
  case Gather
  then show ?thesis by (intro inv_crash_same[OF assms(1)]) (simp_all add: active_def)
next
  case (Handled c)
  then show ?thesis by (intro inv_crash_same[OF assms(1)]) (simp_all add: active_def)
next
  case (Escaped c)
  with assms(1) show ?thesis by (simp add: inv_crash_def active_def)
qed

lemma progress_marks_Suc:
  "progress_marks n (Suc c) =
     progress_marks n c @ (if Suc c mod 10 = 0 \<or> Suc c = n then [Suc c] else [])"
  by (simp add: progress_marks_def)

lemma inv_updates_idle:
  assumes "inv_updates cfg s" "active s"
    "updates s' = updates s" "completed s' = completed s" "\<not> returned s'"
  shows "inv_updates cfg s'"
  using assms by (simp add: inv_updates_def active_def)

lemma inv_updates_complete:
  assumes "inv_updates cfg s" "active s"
    "updates t = updates s" "completed t = completed s" "\<not> returned t"
  shows "inv_updates cfg (complete cfg t)"
  using assms by (simp add: inv_updates_def active_def updates_complete progress_marks_Suc)

lemma all_written_no_crash:
  assumes "inv_crash s" "list_all written (phase s)"
  shows "crash s = None"
proof -
  have "\<forall>j < length (phase s). \<not> died (phase s ! j)"
    using assms(2) written_not_died by (auto simp: list_all_length)
  with assms(1) show ?thesis by (simp add: inv_crash_def)
qed

lemma inv_updates_step:
  assumes "inv_updates cfg s" "inv_crash s" "step cfg ev s = Some s'"
  shows "inv_updates cfg s'"
  using assms(3)
proof (cases rule: step_cases)
  case (Grant i)
  then show ?thesis by (intro inv_updates_idle[OF assms(1)]) (simp_all add: active_def)
next
  case (Reject i)
  then show ?thesis by (intro inv_updates_idle[OF assms(1)]) (simp_all add: active_def)
next
  case (Acquire i)
  then show ?thesis by (intro inv_updates_idle[OF assms(1)]) (simp_all add: active_def)
next
  case (Call i k)
  then show ?thesis by (intro inv_updates_idle[OF assms(1)]) (simp_all add: active_def)
next
  case (Clash i k)
  then show ?thesis
    using inv_updates_complete[OF assms(1), of "except_branch cfg i fn_clash s"]
    by (simp add: active_def)
next
  case (Success i k v)
  then show ?thesis
    using inv_updates_complete[OF assms(1), of "store_result i v s"] by (simp add: active_def)
next
  case (Exhausted i k e)
  then show ?thesis
    using inv_updates_complete[OF assms(1), of "except_branch cfg i e s"]
    by (simp add: active_def)
next
  case (Retry i k e)
  then show ?thesis by (intro inv_updates_idle[OF assms(1)]) (simp_all add: active_def)
next
  case (Expire i)
  then show ?thesis
    using inv_updates_complete[OF assms(1), of "except_branch cfg i TimeoutError s"]
    by (simp add: active_def)
next
  case Gather
  from all_written_no_crash[OF assms(2) Gather(3)] have "crash s = None" .
  with Gather assms(1) show ?thesis by (simp add: inv_updates_def active_def)
next
  case (Handled c)
  with assms(1) show ?thesis by (simp add: inv_updates_def active_def)
next
  case (Escaped c)
  with assms(1) show ?thesis by (simp add: inv_updates_def active_def)
qed

lemma inv_calls_phase:
  assumes "inv_calls cfg s" "inv_len cfg s" "i < length (phase s)"
    "calls_ok cfg (calls_of i s) p" "calls s' = calls s" "phase s' = (phase s)[i := p]"
  shows "inv_calls cfg s'"
  using assms by (auto simp: inv_calls_def inv_len_def calls_of_def nth_list_update)

lemma inv_calls_same:
  assumes "inv_calls cfg s" "calls s' = calls s" "phase s' = phase s"
  shows "inv_calls cfg s'"
  using assms by (simp add: inv_calls_def calls_of_def)

lemma inv_calls_at:
  "inv_calls cfg s \<Longrightarrow> i < length (items cfg) \<Longrightarrow> calls_ok cfg (calls_of i s) (phase s ! i)"
  by (simp add: inv_calls_def)

lemma calls_ok_running_end:
  assumes "running p" "calls_ok cfg c p" "phase_ok cfg i p" "terminal q"
  shows "calls_ok cfg c q"
  using assms by (cases p; cases q) (auto split: if_splits)

lemma inv_calls_except:
  assumes "inv_calls cfg s" "inv_len cfg s" "inv_phase cfg s" "i < length (phase s)"
    "running (phase s ! i)"
  shows "inv_calls cfg (complete cfg (except_branch cfg i e s))"
proof -
  have i: "i < length (items cfg)" using assms(2,4) by (simp add: inv_len_def)
  have "calls_ok cfg (calls_of i s) (end_phase cfg i e)"
    using calls_ok_running_end[OF assms(5) inv_calls_at[OF assms(1) i]
        inv_phase_at[OF assms(3) i], of "end_phase cfg i e"]
    by simp
  then show ?thesis
    by (intro inv_calls_phase[OF assms(1,2,4), of "end_phase cfg i e"]) simp_all
qed

lemma inv_calls_step:
  assumes "inv_calls cfg s" "inv_len cfg s" "inv_phase cfg s" "step cfg ev s = Some s'"
  shows "inv_calls cfg s'"
  using assms(4)
proof (cases rule: step_cases)
  case (Grant i)
  with inv_calls_at[OF assms(1), of i] assms(2) have "calls_ok cfg (calls_of i s) AtGate"
    by (simp add: inv_len_def)
  with Grant show ?thesis by (intro inv_calls_phase[OF assms(1,2), of i AtGate]) simp_all
next
  case (Reject i)
  with inv_calls_at[OF assms(1), of i] assms(2) have "calls_ok cfg (calls_of i s) Rejected"
    by (simp add: inv_len_def)
  with Reject show ?thesis by (intro inv_calls_phase[OF assms(1,2), of i Rejected]) simp_all
next
  case (Acquire i)
  with inv_calls_at[OF assms(1), of i] assms(2) have "calls_ok cfg (calls_of i s) (Backoff 0)"
    by (auto simp: inv_len_def)
  with Acquire show ?thesis by (intro inv_calls_phase[OF assms(1,2), of i "Backoff 0"]) simp_all
next
  case (Call i k)
  show ?thesis
  proof (cases "kwargs cfg ''item'' = None")
    case True
    from inv_calls_at[OF assms(1) Call(4)] Call(5) True have c: "calls_of i s = k" by simp
    have s': "s' = s\<lparr>phase := (phase s)[i := Calling (Suc k)],
                     calls := calls s @ [(i, items cfg ! i, kwargs cfg)]\<rparr>"
      using Call(7) True by simp
    have 1: "\<forall>c \<in> set (calls s').
          fst c < length (items cfg) \<and> fst (snd c) = items cfg ! fst c \<and> snd (snd c) = kwargs cfg"
      using assms(1) Call(4) s' by (auto simp: inv_calls_def)
    have 2: "calls_ok cfg (calls_of j s') (phase s' ! j)" if "j < length (items cfg)" for j
    proof (cases "j = i")
      case True
      then show ?thesis using Call(3) \<open>kwargs cfg ''item'' = None\<close> s' c
        by (simp add: calls_of_def)
    next
      case False
      then show ?thesis using s' inv_calls_at[OF assms(1) that] by (simp add: calls_of_def)
    qed
    from 1 2 True Call(6) show ?thesis by (simp add: inv_calls_def)
  next
    case False
    from inv_calls_at[OF assms(1) Call(4)] Call(5) False
    have "calls_ok cfg (calls_of i s) (Calling (Suc k))" by simp
    with Call False show ?thesis
      by (intro inv_calls_phase[OF assms(1,2), of i "Calling (Suc k)"]) simp_all
  qed
next
  case (Clash i k)
  then show ?thesis using inv_calls_except[OF assms(1,2,3), of i fn_clash] by simp
next
  case (Success i k v)
  have "calls_ok cfg (calls_of i s) (Succeeded v)"
    using calls_ok_running_end[of "Calling k" cfg "calls_of i s" i "Succeeded v"]
      inv_calls_at[OF assms(1) Success(4)] inv_phase_at[OF assms(3) Success(4)] Success(5)
    by simp
  with Success show ?thesis by (intro inv_calls_phase[OF assms(1,2), of i "Succeeded v"]) simp_all
next
  case (Exhausted i k e)
  then show ?thesis using inv_calls_except[OF assms(1,2,3), of i e] by simp
next
  case (Retry i k e)
  with inv_calls_at[OF assms(1), of i] have "calls_ok cfg (calls_of i s) (Backoff k)"
    by simp
  with Retry show ?thesis by (intro inv_calls_phase[OF assms(1,2), of i "Backoff k"]) simp_all
next
  case (Expire i)
  then show ?thesis using inv_calls_except[OF assms(1,2,3), of i TimeoutError] by simp
next
  case Gather
  then show ?thesis by (intro inv_calls_same[OF assms(1)]) simp_all
next
  case (Handled c)
  then show ?thesis by (intro inv_calls_same[OF assms(1)]) simp_all
next
  case (Escaped c)
  then show ?thesis by (intro inv_calls_same[OF assms(1)]) simp_all
qed

lemma invariant_init: "invariant cfg (init_state cfg)"
  by (simp add: invariant_def inv_len_def inv_sem_def inv_count_def inv_slot_def inv_phase_def
      inv_writes_def inv_calls_def inv_log_def inv_crash_def inv_updates_def init_state_def
      running_count_def terminal_count_def calls_of_def progress_marks_def)

lemma invariant_step:
  assumes "invariant cfg s" "step cfg ev s = Some s'"
  shows "invariant cfg s'"
  using assms inv_len_step[of cfg s ev s'] inv_sem_step[of cfg s ev s']
    inv_count_step[of s cfg ev s'] inv_slot_step[of cfg s ev s'] inv_phase_step[of cfg s ev s']
    inv_writes_step[of s cfg ev s'] inv_calls_step[of cfg s ev s'] inv_log_step[of cfg s ev s']
    inv_crash_step[of s cfg ev s'] inv_updates_step[of cfg s ev s']
  by (simp add: invariant_def)

lemma invariant_exec:
  "invariant cfg s \<Longrightarrow> exec cfg sched s = Some s' \<Longrightarrow> invariant cfg s'"
proof (induction sched arbitrary: s)
  case Nil
  then show ?case by simp
next
  case (Cons ev sched)
  then show ?case by (auto split: option.splits dest: invariant_step)
qed

lemma invariant_reachable:
  "exec cfg sched (init_state cfg) = Some s \<Longrightarrow> invariant cfg s"
  using invariant_exec[OF invariant_init] .


lemma steps_left_update:
  assumes "i < length (phase s)" "phase s' = (phase s)[i := p]" "active s"
    "rank (attempt_budget (max_retries cfg)) p < rank (attempt_budget (max_retries cfg)) (phase s ! i)"
  shows "steps_left cfg s' < steps_left cfg s"
  using assms sum_list_map_update[of i "phase s" "rank (attempt_budget (max_retries cfg))" p]
  by (simp add: steps_left_def)

lemma rank_running_pos: "running p \<Longrightarrow> 0 < rank b p"
  by (cases p) simp_all

lemma steps_left_step:
  assumes "inv_phase cfg s" "inv_len cfg s" "step cfg ev s = Some s'"
  shows "steps_left cfg s' < steps_left cfg s"
  using assms(3)
proof (cases rule: step_cases)
  case (Grant i)
  then show ?thesis by (intro steps_left_update[of i s s' AtGate]) simp_all
next
  case (Reject i)
  then show ?thesis by (intro steps_left_update[of i s s' Rejected]) simp_all
next
  case (Acquire i)
  then show ?thesis by (intro steps_left_update[of i s s' "Backoff 0"]) auto
next
  case (Call i k)
  with inv_phase_at[OF assms(1), of i] have "k < attempt_budget (max_retries cfg)" by simp
  with Call show ?thesis by (intro steps_left_update[of i s s' "Calling (Suc k)"]) simp_all
next
  case (Clash i k)
  then show ?thesis by (intro steps_left_update[of i s s' "end_phase cfg i fn_clash"]) simp_all
next
  case (Success i k v)
  then show ?thesis by (intro steps_left_update[of i s s' "Succeeded v"]) simp_all
next
  case (Exhausted i k e)
  then show ?thesis by (intro steps_left_update[of i s s' "end_phase cfg i e"]) simp_all
next
  case (Retry i k e)
  then show ?thesis by (intro steps_left_update[of i s s' "Backoff k"]) simp_all
next
  case (Expire i)
  then show ?thesis
    by (intro steps_left_update[of i s s' "end_phase cfg i TimeoutError"])
       (simp_all add: rank_running_pos)
next
  case Gather
  then show ?thesis by (simp add: steps_left_def active_def)
next
  case (Handled c)
  then show ?thesis by (simp add: steps_left_def active_def)
next
  case (Escaped c)
  then show ?thesis by (simp add: steps_left_def active_def)
qed

text \<open>No execution is longer than the bound its first state gives.\<close>

lemma exec_length_bound:
  "invariant cfg s \<Longrightarrow> exec cfg sched s = Some s'
     \<Longrightarrow> length sched + steps_left cfg s' \<le> steps_left cfg s"
proof (induction sched arbitrary: s)
  case Nil
  then show ?case by simp
next
  case (Cons ev sched)
  from Cons.prems(2) obtain t where t: "step cfg ev s = Some t" "exec cfg sched t = Some s'"
    by (auto split: option.splits)
  have "invariant cfg t" using invariant_step[OF Cons.prems(1) t(1)] .
  then have "length sched + steps_left cfg s' \<le> steps_left cfg t" using Cons.IH t(2) by blast
  moreover have "steps_left cfg t < steps_left cfg s"
    using steps_left_step[OF _ _ t(1)] Cons.prems(1) by (simp add: invariant_def)
  ultimately show ?case by simp
qed




subsection \<open>Evaluating the examples\<close>


lemma log_ok_failure_line:
  "log_ok cfg (failure_line i mr e)
     \<longleftrightarrow> CHR ''['' \<notin> set (exn_text e) \<or> markup_ok cfg (failure_line i mr e)"
  by (simp add: log_ok_def failure_line_plain)

lemmas eval_defs = async_process_all_def batch_config_def init_state_def has_limiter_def
  timeout_enabled_def active_def complete_def store_result_def store_failure_def
  except_branch_def note_crash_def log_ok_failure_line log_ok_no_items
  determine_worker_count_def cpu_count_or_4_def bind_item_def
  demo_env_def limited_env_def timeout_env_def tag_env_def
  demo_config_def none_config_def demo_schedule_def demo_schedule2_def none_schedule_def
  rejected_schedule_def demo_func_def fail_func_def none_func_def tag_func_def


lemmas outcome_defs = item_outcome_def safe_call_def bind_item_def make_retry_async_def
  retry_from_unfold

subsection \<open>The running tasks, the counter and the slots\<close>

lemma running_count_le:
  assumes "invariant cfg s" "0 \<le> workers cfg"
  shows "int (sem s) + int (running_count s) = workers cfg"
proof -
  have "sem s + running_count s = nat (workers cfg)"
    using assms(1) by (simp add: invariant_def inv_sem_def)
  then have "int (sem s + running_count s) = workers cfg" using assms(2) by simp
  then show ?thesis by simp
qed

lemma calls_started_holds_gate:
  assumes "invariant cfg s" "i < length (items cfg)" "0 < calls_of i s"
  shows "running (phase s ! i) \<or> terminal (phase s ! i)"
  using inv_calls_at[of cfg s i] assms
  by (cases "phase s ! i") (simp_all add: invariant_def)

text \<open>Claim C5. In every state an execution with \<open>workers = k\<close> passes through, at most
  \<open>k\<close> tasks are inside the retry-wrapped call (phases \<open>Backoff\<close> and \<open>Calling\<close>): the
  permits taken from the semaphore of size \<open>k\<close> are exactly those of the running tasks,
  so a task that has ended has given its permit back, and a task for which a call of
  the process function has started has taken the semaphore before.\<close>

theorem running_bounded_by_workers:
  assumes "exec cfg sched (init_state cfg) = Some s" "0 \<le> workers cfg"
  shows "int (running_count s) \<le> workers cfg
         \<and> int (sem s) + int (running_count s) = workers cfg
         \<and> (\<forall>i < length (items cfg).
               0 < calls_of i s \<longrightarrow> running (phase s ! i) \<or> terminal (phase s ! i))"
  using running_count_le[OF invariant_reachable[OF assms(1)] assms(2)]
    calls_started_holds_gate[OF invariant_reachable[OF assms(1)]]
  by auto

lemma demo_prefix:
  "\<exists>s. exec demo_config [Acquire 1, Call 1] (init_state demo_config) = Some s"
  by (simp add: eval_defs)

theorem running_bounded_by_workers_witness:
  "map_option (\<lambda>s. (running_count s, sem s, calls_of 1 s, phase s))
     (exec demo_config [Acquire 1, Call 1] (init_state demo_config))
     = Some (1, 0, 1, [Created, Calling 1])
   \<and> workers demo_config = 1"
proof -
  obtain s where e: "exec demo_config [Acquire 1, Call 1] (init_state demo_config) = Some s"
    using demo_prefix by blast
  have w: "0 \<le> workers demo_config" by (simp add: demo_config_def)
  from running_bounded_by_workers[OF e w] show ?thesis
    by (simp add: eval_defs running_count_def calls_of_def)
qed

















lemma returned_run:
  assumes "async_process_all cfg sched = Returned s" "i < length (items cfg)"
  shows "exec cfg sched (init_state cfg) = Some s \<and> returned s"
  using assms by (auto simp: async_process_all_def split: if_splits option.splits)

lemma reachable_slot:
  assumes "invariant cfg s" "i < length (items cfg)"
  shows "results s ! i = slot_of (phase s ! i)" "phase_ok cfg i (phase s ! i)"
  using assms by (simp_all add: invariant_def inv_slot_def inv_phase_def)

text \<open>Claim C9. When the call has returned, the slot of an item whose processing
  succeeded with the value \<^verbatim>\<open>None\<close> holds \<^verbatim>\<open>None\<close>, and so does the slot of every item that
  failed, by exhausted retries or by timeout: the list does not tell the two apart.\<close>

theorem none_result_ambiguous:
  assumes "async_process_all cfg sched = Returned s" "i < length (items cfg)"
  shows "(phase s ! i = Succeeded None
            \<longrightarrow> item_outcome cfg i = Returns None \<and> results s ! i = None)
         \<and> (\<forall>e. phase s ! i = Failed e \<longrightarrow> results s ! i = None)
         \<and> (item_outcome cfg i = Returns None \<longrightarrow> results s ! i = None)
         \<and> (\<forall>e. item_outcome cfg i = Raises e \<longrightarrow> results s ! i = None)"
proof -
  from returned_run[OF assms] have e: "exec cfg sched (init_state cfg) = Some s" by simp
  note f = reachable_slot[OF invariant_reachable[OF e] assms(2)]
  from f show ?thesis by (cases "phase s ! i") auto
qed

theorem none_result_ambiguous_witness:
  "results_of (async_process_all none_config none_schedule) = Some [None]
   \<and> results_of (async_process_all (none_config\<lparr>process_func := fail_func\<rparr>) none_schedule)
       = Some [None]
   \<and> item_outcome none_config 0 = Returns None
   \<and> item_outcome (none_config\<lparr>process_func := fail_func\<rparr>) 0 = Raises (Exception ''boom'')"
proof -
  have a: "\<exists>s. async_process_all none_config none_schedule = Returned s"
    by (simp add: eval_defs)
  have b: "\<exists>s. async_process_all (none_config\<lparr>process_func := fail_func\<rparr>) none_schedule
            = Returned s"
    by (simp add: eval_defs)
  from a obtain s where s: "async_process_all none_config none_schedule = Returned s" by blast
  from b obtain t where t: "async_process_all (none_config\<lparr>process_func := fail_func\<rparr>)
      none_schedule = Returned t" by blast
  have i: "0 < length (items none_config)"
    "0 < length (items (none_config\<lparr>process_func := fail_func\<rparr>))"
    by (simp_all add: none_config_def)
  from none_result_ambiguous[OF s i(1)] none_result_ambiguous[OF t i(2)] show ?thesis
    by (simp add: eval_defs outcome_defs)
qed

subsection \<open>Batches\<close>

lemma range_up_unfold:
  "range_up i stop d =
     (if d \<le> 0 \<or> stop \<le> i then [] else i # range_up (i + d) stop d)"
  by (rule range_up.simps)

lemma range_up_unit: "range_up (int a) (int b) 1 = map int [a..<b]"
proof (induction "b - a" arbitrary: a)
  case 0
  then show ?case by (subst range_up_unfold) simp
next
  case (Suc d)
  then have lt: "a < b" and d: "d = b - Suc a" by simp_all
  have "range_up (int a) (int b) 1 = int a # range_up (int (Suc a)) (int b) 1"
    using lt by (subst range_up_unfold) (simp add: add.commute)
  also have "\<dots> = int a # map int [Suc a..<b]" using Suc.hyps(1)[OF d] by simp
  also have "\<dots> = map int [a..<b]" using lt by (simp add: upt_conv_Cons)
  finally show ?case .
qed

lemma batch_count_step:
  fixes e a n :: nat
  assumes "0 < e" "a < n"
  shows "(n - a + e - 1) div e = Suc ((n - (a + e) + e - 1) div e)"
proof (cases "a + e \<le> n")
  case True
  define x where "x = n - (a + e) + e - 1"
  have "n - a + e - 1 = x + e" using True assms by (simp add: x_def)
  then have "(n - a + e - 1) div e = (x + e) div e" by (rule arg_cong)
  also have "\<dots> = Suc (x div e)" using assms(1) by simp
  finally show ?thesis unfolding x_def .
next
  case False
  have "(n - a + e - 1) div e = 1"
    by (rule div_nat_eqI) (use False assms in simp_all)
  moreover have "(n - (a + e) + e - 1) div e = 0" using False assms by simp
  ultimately show ?thesis by simp
qed

lemma range_up_starts:
  assumes "0 < e"
  shows "range_up (int a) (int n) (int e)
         = map (\<lambda>k. int (a + k * e)) [0..<(n - a + e - 1) div e]"
proof (induction "n - a" arbitrary: a rule: less_induct)
  case less
  show ?case
  proof (cases "a < n")
    case False
    then have "n - a + e - 1 < e" using assms by simp
    then have "(n - a + e - 1) div e = 0" by simp
    moreover have "range_up (int a) (int n) (int e) = []"
      using False by (subst range_up_unfold) simp
    ultimately show ?thesis by simp
  next
    case True
    have "range_up (int a) (int n) (int e) = int a # range_up (int (a + e)) (int n) (int e)"
      using True assms by (subst range_up_unfold) simp
    also have "range_up (int (a + e)) (int n) (int e)
               = map (\<lambda>k. int (a + e + k * e)) [0..<(n - (a + e) + e - 1) div e]"
      using less.hyps[of "a + e"] True assms by simp
    finally have "range_up (int a) (int n) (int e)
               = map (\<lambda>k. int (a + k * e)) (0 # map Suc [0..<(n - (a + e) + e - 1) div e])"
      by (simp add: comp_def algebra_simps)
    also have "0 # map Suc [0..<(n - (a + e) + e - 1) div e] = [0..<(n - a + e - 1) div e]"
      using batch_count_step[OF assms True] by (simp add: upt_conv_Cons map_Suc_upt)
    finally show ?thesis .
  qed
qed

lemma py_slice_nat:
  "py_slice xs (int a) (int a + int e) = take e (drop a xs)"
proof -
  have "slice_bound (length xs) (int a) = min a (length xs)"
    "slice_bound (length xs) (int a + int e) = min (a + e) (length xs)"
    by (simp_all add: slice_bound_def nat_add_distrib)
  then have "py_slice xs (int a) (int a + int e)
             = take (min (a + e) (length xs) - min a (length xs)) (drop (min a (length xs)) xs)"
    by (simp add: py_slice_def Let_def)
  also have "\<dots> = take e (drop a xs)"
  proof (cases "a \<le> length xs")
    case True
    then have "min (a + e) (length xs) - min a (length xs) = min e (length (drop a xs))"
      by auto
    then show ?thesis using True by (simp add: min_def)
  next
    case False
    then show ?thesis by simp
  qed
  finally show ?thesis .
qed

lemma concat_index_ranges:
  "concat (map (\<lambda>k. [k * e..<min (k * e + e) n]) [0..<j]) = [0..<min (j * e) n]"
proof (induction j)
  case 0
  then show ?case by simp
next
  case (Suc j)
  have "[0..<min (j * e) n] @ [j * e..<min (j * e + e) n] = [0..<min (j * e + e) n]"
  proof (cases "j * e \<le> n")
    case True
    then have "[0..<min (j * e + e) n] = [0..<j * e] @ [j * e..<min (j * e + e) n]"
      using upt_add_eq_append[of 0 "j * e" "min (j * e + e) n - j * e"] by simp
    then show ?thesis using True by (simp add: min_def)
  next
    case False
    then show ?thesis by (simp add: min_def)
  qed
  then show ?case using Suc by (simp add: add.commute)
qed

lemma concat_item_ranges:
  "concat (map (\<lambda>k. take e (drop (k * e) xs)) [0..<j]) = take (j * e) xs"
proof (induction j)
  case 0
  then show ?case by simp
next
  case (Suc j)
  have "take (j * e) xs @ take e (drop (j * e) xs) = take (j * e + e) xs"
    by (simp add: take_add)
  then show ?case using Suc by (simp add: add.commute)
qed

lemma batch_count_covers:
  fixes e n :: nat
  assumes "0 < e"
  shows "n \<le> ((n + e - 1) div e) * e"
proof -
  have "n + e - 1 = ((n + e - 1) div e) * e + (n + e - 1) mod e" by simp
  moreover have "(n + e - 1) mod e < e" using assms by simp
  ultimately show ?thesis by linarith
qed


lemma range_down_unfold:
  "range_down i stop d =
     (if 0 \<le> d \<or> i \<le> stop then [] else i # range_down (i + d) stop d)"
  by (rule range_down.simps)

lemma batching_ok_positive:
  assumes "batching_ok n batch_size"
  shows "1 \<le> effective_batch_size (int n) batch_size"
  using assms by (auto simp: batching_ok_def effective_batch_size_def)

lemma min_int_add: "min (int a + int b) (int c) = int (min (a + b) c)"
  by (simp add: min_def)

lemma create_batches_closed_form:
  assumes "0 < e" "effective_batch_size (int (length xs)) batch_size = int e"
  shows "create_batches xs batch_size =
           Inr (map (\<lambda>k. (map int [k * e..<min (k * e + e) (length xs)],
                           take e (drop (k * e) xs)))
                    [0..<(length xs + e - 1) div e])"
proof -
  define m where "m = (length xs + e - 1) div e"
  have starts: "range_up 0 (int (length xs)) (int e) = map (\<lambda>k. int (k * e)) [0..<m]"
    using range_up_starts[OF assms(1), of 0 "length xs"] by (simp add: m_def)
  have pr: "py_range 0 (int (length xs)) (int e) = Inr (map (\<lambda>k. int (k * e)) [0..<m])"
    unfolding py_range_def starts using assms(1) by simp
  have idx: "range_up (int (k * e)) (min (int (k * e) + int e) (int (length xs))) 1
             = map int [k * e..<min (k * e + e) (length xs)]" for k
  proof -
    have "min (int (k * e) + int e) (int (length xs)) = int (min (k * e + e) (length xs))"
      by (rule min_int_add)
    then show ?thesis by (simp only: range_up_unit)
  qed
  have "create_batches xs batch_size =
          Inr (map (\<lambda>i. (range_up i (min (i + int e) (int (length xs))) 1,
                          py_slice xs i (i + int e)))
                   (map (\<lambda>k. int (k * e)) [0..<m]))"
    unfolding create_batches_def Let_def assms(2) pr by (simp only: sum.case)
  also have "map (\<lambda>i. (range_up i (min (i + int e) (int (length xs))) 1,
                          py_slice xs i (i + int e)))
                   (map (\<lambda>k. int (k * e)) [0..<m])
             = map (\<lambda>k. (range_up (int (k * e)) (min (int (k * e) + int e) (int (length xs))) 1,
                          py_slice xs (int (k * e)) (int (k * e) + int e))) [0..<m]"
    by (simp only: map_map comp_def)
  also have "\<dots> = map (\<lambda>k. (map int [k * e..<min (k * e + e) (length xs)],
                           take e (drop (k * e) xs))) [0..<m]"
    by (simp only: idx py_slice_nat)
  finally show ?thesis unfolding m_def .
qed

lemma nth_map_upt0: "k < m \<Longrightarrow> map f [0..<m] ! k = f k"
  by simp

text \<open>Claim C4, amended. When the batch size that is used is positive, which holds for
  fewer than 50 items, for more than 1000 items, and for \<open>batch_size \<ge> 1\<close> otherwise,
  \<^verbatim>\<open>create_batches\<close> returns the batches of the contiguous index ranges
  \<open>[k * e, min (k * e + e) n)\<close> for \<open>k = 0, 1, \<dots>\<close> with the items at these indices, where
  \<open>n\<close> is the number of items and \<open>e\<close> the effective batch size: \<open>max batch_size (n div 50)\<close>
  for \<open>n > 1000\<close>, \<open>max 1 (n div 4)\<close> for \<open>n < 50\<close>, and \<open>batch_size\<close> otherwise. The
  ranges cover every index once, in order, and the items keep their order.\<close>

theorem create_batches_partition:
  assumes "batching_ok (length xs) batch_size"
  shows "\<exists>e batches.
           int e = effective_batch_size (int (length xs)) batch_size
           \<and> int e = (if 1000 < length xs then max batch_size (int (length xs) div 50)
                      else if length xs < 50 then max 1 (int (length xs) div 4)
                      else batch_size)
           \<and> 1 \<le> e
           \<and> create_batches xs batch_size = Inr batches
           \<and> length batches = (length xs + e - 1) div e
           \<and> (\<forall>k < length batches.
                 batches ! k = (map int [k * e..<min (k * e + e) (length xs)],
                                take e (drop (k * e) xs)))
           \<and> concat (map fst batches) = map int [0..<length xs]
           \<and> concat (map snd batches) = xs"
proof -
  define e where "e = nat (effective_batch_size (int (length xs)) batch_size)"
  define m where "m = (length xs + e - 1) div e"
  define batches where
    "batches = map (\<lambda>k. (map int [k * e..<min (k * e + e) (length xs)],
                          take e (drop (k * e) xs))) [0..<m]"
  have pos: "1 \<le> effective_batch_size (int (length xs)) batch_size"
    using batching_ok_positive[OF assms] .
  then have e: "int e = effective_batch_size (int (length xs)) batch_size" and e1: "1 \<le> e"
    by (simp_all add: e_def)
  have form: "int e = (if 1000 < length xs then max batch_size (int (length xs) div 50)
                      else if length xs < 50 then max 1 (int (length xs) div 4)
                      else batch_size)"
    unfolding e by (simp add: effective_batch_size_def)
  have cb: "create_batches xs batch_size = Inr batches"
    using create_batches_closed_form[of e xs batch_size] e e1 by (simp add: batches_def m_def)
  have len: "length batches = (length xs + e - 1) div e" by (simp add: batches_def m_def)
  have kth: "\<forall>k < length batches.
                 batches ! k = (map int [k * e..<min (k * e + e) (length xs)],
                                take e (drop (k * e) xs))"
    by (simp add: batches_def)
  have cover: "length xs \<le> m * e" using batch_count_covers[of e "length xs"] e1
    by (simp add: m_def)
  have "concat (map fst batches)
        = concat (map (map int) (map (\<lambda>k. [k * e..<min (k * e + e) (length xs)]) [0..<m]))"
    by (simp add: batches_def comp_def)
  also have "\<dots> = map int (concat (map (\<lambda>k. [k * e..<min (k * e + e) (length xs)]) [0..<m]))"
    by (simp add: map_concat)
  also have "\<dots> = map int [0..<min (m * e) (length xs)]"
    by (simp only: concat_index_ranges)
  also have "\<dots> = map int [0..<length xs]"
    using cover by (simp add: min_absorb2)
  finally have fsts: "concat (map fst batches) = map int [0..<length xs]" .
  have "concat (map snd batches) = concat (map (\<lambda>k. take e (drop (k * e) xs)) [0..<m])"
    by (simp add: batches_def comp_def)
  also have "\<dots> = xs" using cover by (simp add: concat_item_ranges)
  finally have snds: "concat (map snd batches) = xs" .
  show ?thesis
    by (rule exI[of _ e], rule exI[of _ batches]) (intro conjI; fact)
qed


lemma demo_batches:
  "create_batches ''abcdefghij'' 20
     = Inr [([0, 1], ''ab''), ([2, 3], ''cd''), ([4, 5], ''ef''), ([6, 7], ''gh''), ([8, 9], ''ij'')]"
  by (simp add: create_batches_def effective_batch_size_def py_range_def py_slice_def
        slice_bound_def range_up_unfold)

theorem create_batches_partition_witness:
  "create_batches ''abcdefghij'' 20
     = Inr [([0, 1], ''ab''), ([2, 3], ''cd''), ([4, 5], ''ef''), ([6, 7], ''gh''), ([8, 9], ''ij'')]
   \<and> effective_batch_size 10 20 = 2 \<and> effective_batch_size 2000 20 = 40
   \<and> effective_batch_size 100 20 = 20 \<and> batching_ok (length ''abcdefghij'') 20"
proof -
  have ok: "batching_ok (length ''abcdefghij'') 20" by (simp add: batching_ok_def)
  from create_batches_partition[OF ok] obtain e :: nat and batches :: "(int list \<times> string) list"
    where "create_batches ''abcdefghij'' 20 = Inr batches" "1 \<le> e"
    by blast
  then have "create_batches ''abcdefghij'' 20 = Inr batches \<and> 1 \<le> e" by simp
  moreover have "effective_batch_size 10 20 = 2 \<and> effective_batch_size 2000 20 = 40
   \<and> effective_batch_size 100 20 = 20" by (simp add: effective_batch_size_def)
  ultimately show ?thesis using ok demo_batches by simp
qed

theorem create_batches_counterexample:
  "create_batches (replicate 50 (0::nat)) (- 1) = Inr []
   \<and> create_batches (replicate 50 (0::nat)) 0 = Inl ValueError"
  by (simp add: create_batches_def effective_batch_size_def py_range_def range_down_unfold)


subsection \<open>Retries\<close>







subsection \<open>The entry points\<close>


lemma create_batches_flat:
  assumes "batching_ok (length xs) batch_size"
  shows "\<exists>batches. create_batches xs batch_size = Inr batches \<and> concat (map snd batches) = xs"
proof -
  define e where "e = nat (effective_batch_size (int (length xs)) batch_size)"
  define m where "m = (length xs + e - 1) div e"
  have pos: "1 \<le> effective_batch_size (int (length xs)) batch_size"
    using batching_ok_positive[OF assms] .
  then have e: "effective_batch_size (int (length xs)) batch_size = int e" and e1: "0 < e"
    by (simp_all add: e_def)
  have cover: "length xs \<le> m * e" using batch_count_covers[of e "length xs"] e1
    by (simp add: m_def)
  have "concat (map snd (map (\<lambda>k. (map int [k * e..<min (k * e + e) (length xs)],
                           take e (drop (k * e) xs))) [0..<m]))
        = concat (map (\<lambda>k. take e (drop (k * e) xs)) [0..<m])"
    by (simp add: comp_def)
  also have "\<dots> = xs" using cover by (simp add: concat_item_ranges)
  finally show ?thesis using create_batches_closed_form[OF e1 e] unfolding m_def by blast
qed

lemma batch_config_simps [simp]:
  "items (batch_config ev xs w f mr tmo rate kw) = xs"
  "process_func (batch_config ev xs w f mr tmo rate kw) = f"
  "workers (batch_config ev xs w f mr tmo rate kw) = w"
  "max_retries (batch_config ev xs w f mr tmo rate kw) = mr"
  "timeout (batch_config ev xs w f mr tmo rate kw) = tmo"
  "rate_limit_per_sec (batch_config ev xs w f mr tmo rate kw) = rate"
  "kwargs (batch_config ev xs w f mr tmo rate kw) = kw(''rate_limit_per_sec'' := None)"
  "markup_ok (batch_config ev xs w f mr tmo rate kw) = rich_markup_ok ev"
  "markup_error (batch_config ev xs w f mr tmo rate kw) = rich_markup_error ev"
  by (simp_all add: batch_config_def)


lemma pop_rate_limit_schedule [simp]:
  "pop_rate_limit (ev\<lparr>schedule := sched\<rparr>) kw = pop_rate_limit ev kw"
  by (simp add: pop_rate_limit_def split: option.splits pyval.splits)

lemma rate_of_schedule [simp]: "rate_of (ev\<lparr>schedule := sched\<rparr>) kw = rate_of ev kw"
  by (simp add: rate_of_def)

lemma run_config_schedule [simp]:
  "run_config (ev\<lparr>schedule := sched\<rparr>) xs f w mr tmo kw = run_config ev xs f w mr tmo kw"
  by (simp add: run_config_def batch_config_def)

lemma well_formed_schedule [simp]:
  "well_formed (ev\<lparr>schedule := sched\<rparr>) xs f w batch_size mr tmo kw
     \<longleftrightarrow> well_formed ev xs f w batch_size mr tmo kw"
  by (simp add: well_formed_def)

lemma run_config_simps [simp]:
  "items (run_config ev xs f w mr tmo kw) = xs"
  "process_func (run_config ev xs f w mr tmo kw) = f"
  "workers (run_config ev xs f w mr tmo kw) = determine_worker_count (cpu_count ev) w"
  "max_retries (run_config ev xs f w mr tmo kw) = mr"
  "timeout (run_config ev xs f w mr tmo kw) = tmo"
  "kwargs (run_config ev xs f w mr tmo kw) = kw(''rate_limit_per_sec'' := None)"
  "markup_ok (run_config ev xs f w mr tmo kw) = rich_markup_ok ev"
  by (simp_all add: run_config_def)

lemma timeout_enabled_run_config [simp]:
  "timeout_enabled (run_config ev xs f w mr tmo kw) \<longleftrightarrow> 0 < tmo"
  by (auto simp: timeout_enabled_def)

lemma item_outcome_run_config [simp]:
  "item_outcome (run_config ev xs f w mr tmo kw) i
     = fst (safe_call f mr (xs ! i) (kw(''rate_limit_per_sec'' := None)))"
  by (simp add: item_outcome_def)



















lemma create_batches_empty:
  "\<exists>batches. create_batches ([] :: 'a list) batch_size = Inr batches
      \<and> concat (map snd batches) = ([] :: 'a list)"
  by (rule create_batches_flat) (simp add: batching_ok_def)

lemma async_process_all_empty:
  "items cfg = [] \<Longrightarrow> async_process_all cfg sched = Returned no_items_state"
  by (simp add: async_process_all_def log_ok_no_items)

lemma run_asyncio_returned [simp]: "run_asyncio b (Returned s) = Returned s"
  by (simp add: run_asyncio_def)

lemma parallel_process_empty_run:
  fixes f :: "('a, 'r) process_func"
  shows "parallel_process ev [] f w batch_size mr tmo kw =
           (if collides process_batches_keywords kw then Raised TypeError
            else case pop_rate_limit ev kw of
                   Inl e \<Rightarrow> Raised e
                 | Inr rate \<Rightarrow>
                     if collides async_process_all_keywords (kw(''rate_limit_per_sec'' := None))
                     then Raised TypeError
                     else Returned no_items_state)"
proof -
  from create_batches_empty[where 'a='a, of batch_size] obtain batches where
    b: "create_batches ([] :: 'a list) batch_size = Inr batches"
      "concat (map snd batches) = ([] :: 'a list)" by blast
  have "process_batches ev batches (determine_worker_count (cpu_count ev) w) f 0 mr tmo kw =
          (case pop_rate_limit ev kw of
             Inl e \<Rightarrow> Raised e
           | Inr rate \<Rightarrow>
               if collides async_process_all_keywords (kw(''rate_limit_per_sec'' := None))
               then Raised TypeError
               else Returned no_items_state)"
    using b(2) by (simp add: process_batches_def Let_def async_process_all_empty split: sum.splits)
  with b(1) show ?thesis by (simp add: parallel_process_def Let_def)
qed

text \<open>Claim C6, amended. For an empty list of items \<^verbatim>\<open>parallel_process\<close> returns the
  empty list, whatever the other arguments, the environment and the schedule, provided
  that no keyword argument has a name given at the calls of \<^verbatim>\<open>process_batches\<close> and
  \<^verbatim>\<open>_async_process_all\<close> (\<^verbatim>\<open>batches\<close>, \<^verbatim>\<open>total_items\<close>, \<^verbatim>\<open>items\<close> are such names) and that the
  value of \<^verbatim>\<open>rate_limit_per_sec\<close>, if there is one, is one \<^verbatim>\<open>float()\<close> accepts; then no task
  is created, the process function is never called and no progress update is made.
  Otherwise the call raises, \<^verbatim>\<open>TypeError\<close> for such a name and the exception of \<^verbatim>\<open>float()\<close>
  for such a value, before anything is scheduled. It always ends.\<close>

theorem parallel_process_empty:
  fixes f :: "('a, 'r) process_func"
  shows "(keywords_ok kw \<and> rate_of ev kw \<noteq> None
            \<longrightarrow> parallel_process ev [] f w batch_size mr tmo kw = Returned no_items_state)
         \<and> (\<not> keywords_ok kw \<or> rate_of ev kw = None
            \<longrightarrow> (\<exists>err. parallel_process ev [] f w batch_size mr tmo kw = Raised err))
         \<and> (collides process_batches_keywords kw
            \<longrightarrow> parallel_process ev [] f w batch_size mr tmo kw = Raised TypeError)
         \<and> (\<forall>s. parallel_process ev [] f w batch_size mr tmo kw = Returned s
               \<longrightarrow> results s = [] \<and> calls s = [] \<and> phase s = [] \<and> updates s = [])
         \<and> parallel_process ev [] f w batch_size mr tmo kw \<noteq> NoReturn
         \<and> parallel_process ev [] f w batch_size mr tmo kw \<noteq> ReturnedNone"
proof -
  note run = parallel_process_empty_run[of ev f w batch_size mr tmo kw]
  have 1: "keywords_ok kw \<and> rate_of ev kw \<noteq> None
            \<longrightarrow> parallel_process ev [] f w batch_size mr tmo kw = Returned no_items_state"
    using run by (auto simp: keywords_ok_def rate_of_def split: sum.splits)
  have 2: "\<not> keywords_ok kw \<or> rate_of ev kw = None
            \<longrightarrow> (\<exists>err. parallel_process ev [] f w batch_size mr tmo kw = Raised err)"
    using run by (auto simp: keywords_ok_def rate_of_def split: sum.splits)
  have 3: "collides process_batches_keywords kw
            \<longrightarrow> parallel_process ev [] f w batch_size mr tmo kw = Raised TypeError"
    using run by simp
  have 4: "\<forall>s. parallel_process ev [] f w batch_size mr tmo kw = Returned s
               \<longrightarrow> results s = [] \<and> calls s = [] \<and> phase s = [] \<and> updates s = []"
    using run by (auto simp: no_items_state_def split: if_splits sum.splits)
  have 5: "parallel_process ev [] f w batch_size mr tmo kw \<noteq> NoReturn"
    using run by (auto split: if_splits sum.splits)
  have 6: "parallel_process ev [] f w batch_size mr tmo kw \<noteq> ReturnedNone"
    using run by (auto split: if_splits sum.splits)
  show ?thesis by (intro conjI) (fact 1 2 3 4 5 6)+
qed




subsection \<open>The claims about the entry points on the examples\<close>

lemmas entry_defs = well_formed_def batching_ok_def keywords_ok_def collides_def
  process_batches_keywords_def async_process_all_keywords_def rate_of_def pop_rate_limit_def
  limiter_ok_def run_config_def loggable_def












theorem parallel_process_empty_witness:
  "parallel_process demo_env [] demo_func None 20 2 18000 Map.empty = Returned no_items_state
   \<and> results_of (parallel_process demo_env [] demo_func None 0 0 0
                   [''rate_limit_per_sec'' \<mapsto> PyNum 5]) = Some []"
proof -
  have ok: "keywords_ok Map.empty \<and> rate_of demo_env Map.empty \<noteq> None"
    "keywords_ok [''rate_limit_per_sec'' \<mapsto> PyNum 5]
       \<and> rate_of demo_env [''rate_limit_per_sec'' \<mapsto> PyNum 5] \<noteq> None"
    by (simp_all add: entry_defs)
  from parallel_process_empty[where kw=Map.empty and ev=demo_env and f=demo_func and w=None
      and batch_size=20 and mr=2 and tmo=18000]
    parallel_process_empty[where kw="[''rate_limit_per_sec'' \<mapsto> PyNum 5]" and ev=demo_env
      and f=demo_func and w=None and batch_size=0 and mr=0 and tmo=0]
    ok
  show ?thesis by (simp add: no_items_state_def)
qed

theorem parallel_process_empty_counterexample:
  "parallel_process demo_env [] demo_func None 20 2 0 [''total_items'' \<mapsto> PyNum 5]
     = Raised TypeError"
  by (simp add: parallel_process_empty_run collides_def process_batches_keywords_def)



end
